theory Spec2Isabelle
  imports Main "HOL-Library.AList"
begin

section \<open>The configuration orchestrator of config.go\<close>

text \<open>
  The orchestrator of \<^verbatim>\<open>config/config.go\<close> is embedded as state-passing functions on a
  record of its fields. Its collaborators (Reader, Source, Watcher, the decoder
  \<^verbatim>\<open>unmarshalJSON\<close>) are interfaces whose implementations live outside the file; they
  are parameters of the model. Every call to a collaborator, every log line, every
  sleep and every callback invocation is appended to a trace, so that "is called",
  "is skipped" and "in this order" are statements about lists.

  Each exported method and each iteration of the background loop is one state
  transformer: the model describes sequential executions, one operation after another.
\<close>

subsection \<open>Errors\<close>

text \<open>
  \<^verbatim>\<open>ErrNotFound\<close> and \<^verbatim>\<open>ErrTypeAssert\<close> are the package's own errors,
  \<^verbatim>\<open>context.Canceled\<close> is the one the loop tests for. \<open>Wrapped\<close> is an error that
  unwraps to another one; \<^verbatim>\<open>errors.Is\<close> follows that chain.
\<close>

datatype error =
    ContextCanceled
  | ErrNotFound
  | ErrTypeAssert
  | ErrOther string
  | Wrapped string error

fun errors_Is :: "error \<Rightarrow> error \<Rightarrow> bool" where
  "errors_Is (Wrapped msg inner) target =
     (Wrapped msg inner = target \<or> errors_Is inner target)"
| "errors_Is e target = (e = target)"

subsection \<open>Payloads and the Value objects\<close>

text \<open>
  A payload is the dynamic value behind \<^verbatim>\<open>interface{}\<close>: nil, or a scalar together
  with its dynamic type. \<^verbatim>\<open>reflect.TypeOf(nil)\<close> is the nil type, here \<open>None\<close>; on
  these scalars \<^verbatim>\<open>reflect.DeepEqual\<close> is equality of type and value.
\<close>

datatype payload = PNil | PBool bool | PInt int | PString string

datatype gotype = TBool | TInt | TString

fun reflect_TypeOf :: "payload \<Rightarrow> gotype option" where
  "reflect_TypeOf PNil = None"
| "reflect_TypeOf (PBool b) = Some TBool"
| "reflect_TypeOf (PInt i) = Some TInt"
| "reflect_TypeOf (PString s) = Some TString"

definition reflect_DeepEqual :: "payload \<Rightarrow> payload \<Rightarrow> bool" where
  "reflect_DeepEqual x y = (x = y)"

text \<open>
  Modelled from the spec: the two implementations of the \<^verbatim>\<open>Value\<close> interface, which
  are declared outside config.go. A live value holds a payload that \<^verbatim>\<open>Store\<close>
  replaces in place; an error value (\<^verbatim>\<open>errValue\<close>) is immutable and its \<^verbatim>\<open>Load\<close>
  yields nil.
\<close>

datatype val = Live payload | ErrValue error

fun val_Load :: "val \<Rightarrow> payload" where
  "val_Load (Live p) = p"
| "val_Load (ErrValue e) = PNil"

fun val_Store :: "payload \<Rightarrow> val \<Rightarrow> val" where
  "val_Store p (Live q) = Live p"
| "val_Store p (ErrValue e) = ErrValue e"

subsection \<open>Fragments, watchers, sources\<close>

type_synonym bytes = string

record kv =
  kv_Key :: string
  kv_Value :: bytes
  kv_Format :: string

text \<open>
  A watcher is known to the orchestrator by its identity and by what \<^verbatim>\<open>Stop\<close>
  returns. What its successive \<^verbatim>\<open>Next\<close> calls return is the input of the loop.
\<close>

record watcher =
  w_id :: nat
  w_Stop :: "error option"

record source =
  s_id :: nat
  s_Load :: "error + kv list"
  s_Watch :: "error + watcher"

subsection \<open>The environment: Reader and decoder\<close>

text \<open>
  The Reader works on its own state \<open>'r\<close>. \<^verbatim>\<open>Merge\<close> and \<^verbatim>\<open>Resolve\<close> return the
  state they leave behind together with their error; nothing is assumed about the state
  a failing call leaves. The decoder returns the target as it leaves it, together with
  its error.
\<close>

record ('r, 't) env =
  r_Merge :: "kv list \<Rightarrow> 'r \<Rightarrow> 'r \<times> error option"
  r_Resolve :: "'r \<Rightarrow> 'r \<times> error option"
  r_Value :: "'r \<Rightarrow> string \<Rightarrow> payload option"
  r_Source :: "'r \<Rightarrow> error + bytes"
  unmarshalJSON :: "bytes \<Rightarrow> 't \<Rightarrow> 't \<times> error option"

subsection \<open>The trace\<close>

datatype event =
    Infof string error
  | Errorf string error
  | Debugf string string string
  | Sleep nat
  | CallNext nat
  | CallMerge "kv list"
  | CallResolve
  | CallReaderSource
  | CallUnmarshal bytes nat
  | CallStore nat payload
  | CallObserver nat string nat
  | CallSourceLoad nat
  | CallSourceWatch nat
  | Go_watch nat
  | CallStop nat

definition time_Second :: nat where
  "time_Second = 1000000000"

subsection \<open>The orchestrator's state\<close>

text \<open>
  \<open>cached\<close> and \<open>observers\<close> are the two \<^verbatim>\<open>sync.Map\<close>s. The cache holds references:
  the address of a Value object in \<open>heap\<close>. An observer is an opaque callback, known
  by its identity; invoking it is the event \<open>CallObserver o key address\<close>.
\<close>

record 'r config =
  sources :: "source list"
  reader :: 'r
  cached :: "(string \<times> nat) list"
  observers :: "string \<rightharpoonup> nat"
  watchers :: "watcher list"
  heap :: "val list"
  trace :: "event list"

text \<open>
  \<^verbatim>\<open>New\<close> starts with empty maps and no watcher. Of its options the orchestrator reads
  \<^verbatim>\<open>opts.sources\<close>; the Reader is built by \<^verbatim>\<open>newReader\<close>, here the Reader state
  \<open>r0\<close>.
\<close>

definition New :: "source list \<Rightarrow> 'r \<Rightarrow> 'r config" where
  "New srcs r0 =
     \<lparr>sources = srcs, reader = r0, cached = [], observers = Map.empty,
      watchers = [], heap = [], trace = []\<rparr>"

definition emit :: "event \<Rightarrow> 'r config \<Rightarrow> 'r config" where
  "emit e c = c\<lparr>trace := trace c @ [e]\<rparr>"

definition emits :: "event list \<Rightarrow> 'r config \<Rightarrow> 'r config" where
  "emits es c = c\<lparr>trace := trace c @ es\<rparr>"

definition alloc :: "val \<Rightarrow> 'r config \<Rightarrow> nat \<times> 'r config" where
  "alloc v c = (length (heap c), c\<lparr>heap := heap c @ [v]\<rparr>)"

definition Load_at :: "nat \<Rightarrow> 'r config \<Rightarrow> payload" where
  "Load_at a c = val_Load (heap c ! a)"

definition Store_at :: "nat \<Rightarrow> payload \<Rightarrow> 'r config \<Rightarrow> 'r config" where
  "Store_at a p c =
     emit (CallStore a p) (c\<lparr>heap := (heap c)[a := val_Store p (heap c ! a)]\<rparr>)"

text \<open>
  Modelled from the spec: \<^verbatim>\<open>Reader.Value(key) (Value, bool)\<close>, a point lookup whose
  hit is handed out wrapped in a live Value object of its own.
\<close>

definition reader_Value :: "('r, 't) env \<Rightarrow> string \<Rightarrow> 'r config \<Rightarrow> nat option \<times> 'r config" where
  "reader_Value E key c =
     (case r_Value E (reader c) key of
        None \<Rightarrow> (None, c)
      | Some p \<Rightarrow> (let (n, c') = alloc (Live p) c in (Some n, c')))"

subsection \<open>Close\<close>

fun stop_all :: "watcher list \<Rightarrow> 'r config \<Rightarrow> error option \<times> 'r config" where
  "stop_all [] c = (None, c)"
| "stop_all (w # ws) c =
     (let c1 = emit (CallStop (w_id w)) c in
      case w_Stop w of
        Some err \<Rightarrow> (Some err, c1)
      | None \<Rightarrow> stop_all ws c1)"

definition Close :: "'r config \<Rightarrow> error option \<times> 'r config" where
  "Close c = stop_all (watchers c) c"

subsection \<open>Value and Watch\<close>

definition Value :: "('r, 't) env \<Rightarrow> string \<Rightarrow> 'r config \<Rightarrow> nat \<times> 'r config" where
  "Value E key c =
     (case map_of (cached c) key of
        Some v \<Rightarrow> (v, c)
      | None \<Rightarrow>
          (case reader_Value E key c of
             (Some v, c1) \<Rightarrow> (v, c1\<lparr>cached := AList.update key v (cached c1)\<rparr>)
           | (None, c1) \<Rightarrow> alloc (ErrValue ErrNotFound) c1))"

definition Watch ::
  "('r, 't) env \<Rightarrow> string \<Rightarrow> nat \<Rightarrow> 'r config \<Rightarrow> error option \<times> 'r config" where
  "Watch E key ob c =
     (let (v, c1) = Value E key c in
      if Load_at v c1 = PNil then (Some ErrNotFound, c1)
      else (None, c1\<lparr>observers := (observers c1)(key \<mapsto> ob)\<rparr>))"

subsection \<open>Scan\<close>

text \<open>
  The targets are distinct objects, passed as a list and returned as the call leaves
  them. The index of a target is recorded with each decoder call.
\<close>

fun unmarshal_all ::
  "('r, 't) env \<Rightarrow> bytes \<Rightarrow> nat \<Rightarrow> 't list \<Rightarrow> 'r config \<Rightarrow> error option \<times> 't list \<times> 'r config" where
  "unmarshal_all E data i [] c = (None, [], c)"
| "unmarshal_all E data i (v # vs) c =
     (let c1 = emit (CallUnmarshal data i) c in
      case unmarshalJSON E data v of
        (v', Some err) \<Rightarrow> (Some err, v' # vs, c1)
      | (v', None) \<Rightarrow>
          (let (r, vs', c2) = unmarshal_all E data (Suc i) vs c1 in (r, v' # vs', c2)))"

definition Scan ::
  "('r, 't) env \<Rightarrow> 't list \<Rightarrow> 'r config \<Rightarrow> error option \<times> 't list \<times> 'r config" where
  "Scan E vs c =
     (let c0 = emit CallReaderSource c in
      case r_Source E (reader c0) of
        Inl err \<Rightarrow> (Some err, vs, c0)
      | Inr data \<Rightarrow> unmarshal_all E data 0 vs c0)"

subsection \<open>The reconciliation loop\<close>

text \<open>The callback handed to \<^verbatim>\<open>cached.Range\<close>, for one entry of the cache.\<close>

definition range_body :: "('r, 't) env \<Rightarrow> string \<Rightarrow> nat \<Rightarrow> 'r config \<Rightarrow> 'r config" where
  "range_body E k v c =
     (case reader_Value E k c of
        (Some n, c1) \<Rightarrow>
          if reflect_TypeOf (Load_at n c1) = reflect_TypeOf (Load_at v c1)
             \<and> \<not> reflect_DeepEqual (Load_at n c1) (Load_at v c1)
          then
            (let c2 = Store_at v (Load_at n c1) c1 in
             case observers c2 k of
               Some ob \<Rightarrow> emit (CallObserver ob k v) c2
             | None \<Rightarrow> c2)
          else c1
      | (None, c1) \<Rightarrow> c1)"

fun cached_Range :: "('r, 't) env \<Rightarrow> (string \<times> nat) list \<Rightarrow> 'r config \<Rightarrow> 'r config" where
  "cached_Range E [] c = c"
| "cached_Range E ((k, v) # es) c = cached_Range E es (range_body E k v c)"

datatype control = Continue | Return

text \<open>
  One iteration of the \<^verbatim>\<open>for\<close> loop of \<^verbatim>\<open>watch\<close>, for the watcher \<open>w\<close> and the
  result \<open>nx\<close> of its \<^verbatim>\<open>Next\<close> call.
\<close>

definition watch_iter ::
  "('r, 't) env \<Rightarrow> nat \<Rightarrow> error + kv list \<Rightarrow> 'r config \<Rightarrow> control \<times> 'r config" where
  "watch_iter E w nx c =
     (let c0 = emit (CallNext w) c in
      case nx of
        Inl err \<Rightarrow>
          if errors_Is err ContextCanceled
          then (Return, emit (Infof ''watcher's ctx cancel : %v'' err) c0)
          else (Continue,
                emit (Errorf ''failed to watch next config: %v'' err) (emit (Sleep time_Second) c0))
      | Inr kvs \<Rightarrow>
          (case r_Merge E kvs (reader c0) of
             (r1, Some err) \<Rightarrow>
               (Continue,
                emit (Errorf ''failed to merge next config: %v'' err)
                  (emit (CallMerge kvs) (c0\<lparr>reader := r1\<rparr>)))
           | (r1, None) \<Rightarrow>
               (let c1 = emit (CallMerge kvs) (c0\<lparr>reader := r1\<rparr>) in
                case r_Resolve E (reader c1) of
                  (r2, Some err) \<Rightarrow>
                    (Continue,
                     emit (Errorf ''failed to resolve next config: %v'' err)
                       (emit CallResolve (c1\<lparr>reader := r2\<rparr>)))
                | (r2, None) \<Rightarrow>
                    (let c2 = emit CallResolve (c1\<lparr>reader := r2\<rparr>) in
                     (Continue, cached_Range E (cached c2) c2)))))"

text \<open>
  The loop itself, run against the results of the watcher's successive \<^verbatim>\<open>Next\<close>
  calls. When they are used up the loop is blocked inside \<^verbatim>\<open>Next\<close>.
\<close>

datatype outcome = Returned | Blocked

fun watch ::
  "('r, 't) env \<Rightarrow> nat \<Rightarrow> (error + kv list) list \<Rightarrow> 'r config \<Rightarrow> outcome \<times> 'r config" where
  "watch E w [] c = (Blocked, c)"
| "watch E w (nx # rest) c =
     (case watch_iter E w nx c of
        (Return, c1) \<Rightarrow> (Returned, c1)
      | (Continue, c1) \<Rightarrow> watch E w rest c1)"

subsection \<open>Load\<close>

text \<open>
  The \<^verbatim>\<open>for\<close> loop over \<^verbatim>\<open>opts.sources\<close>. \<^verbatim>\<open>go c.watch(w)\<close> is the event
  \<open>Go_watch\<close>; the iterations of the started loop are operations of their own.
\<close>

fun load_sources :: "('r, 't) env \<Rightarrow> source list \<Rightarrow> 'r config \<Rightarrow> error option \<times> 'r config" where
  "load_sources E [] c = (None, c)"
| "load_sources E (src # rest) c =
     (let c0 = emit (CallSourceLoad (s_id src)) c in
      case s_Load src of
        Inl err \<Rightarrow> (Some err, c0)
      | Inr kvs \<Rightarrow>
          (let c1 = emits (map (\<lambda>v. Debugf ''config loaded: %s format: %s'' (kv_Key v) (kv_Format v)) kvs) c0 in
           case r_Merge E kvs (reader c1) of
             (r1, Some err) \<Rightarrow>
               (Some err,
                emit (Errorf ''failed to merge config source: %v'' err)
                  (emit (CallMerge kvs) (c1\<lparr>reader := r1\<rparr>)))
           | (r1, None) \<Rightarrow>
               (let c2 = emit (CallSourceWatch (s_id src)) (emit (CallMerge kvs) (c1\<lparr>reader := r1\<rparr>)) in
                case s_Watch src of
                  Inl err \<Rightarrow> (Some err, emit (Errorf ''failed to watch config source: %v'' err) c2)
                | Inr w \<Rightarrow>
                    load_sources E rest
                      (emit (Go_watch (w_id w)) (c2\<lparr>watchers := watchers c2 @ [w]\<rparr>)))))"

definition Load :: "('r, 't) env \<Rightarrow> 'r config \<Rightarrow> error option \<times> 'r config" where
  "Load E c =
     (case load_sources E (sources c) c of
        (Some err, c1) \<Rightarrow> (Some err, c1)
      | (None, c1) \<Rightarrow>
          (case r_Resolve E (reader c1) of
             (r2, Some err) \<Rightarrow>
               (Some err,
                emit (Errorf ''failed to resolve config source: %v'' err)
                  (emit CallResolve (c1\<lparr>reader := r2\<rparr>)))
           | (r2, None) \<Rightarrow> (None, emit CallResolve (c1\<lparr>reader := r2\<rparr>))))"

subsection \<open>Sequences of operations\<close>

datatype 't action =
    DoLoad
  | DoValue string
  | DoWatch string nat
  | DoScan "'t list"
  | DoClose
  | DoWatchIter nat "error + kv list"

fun step :: "('r, 't) env \<Rightarrow> 't action \<Rightarrow> 'r config \<Rightarrow> 'r config" where
  "step E DoLoad c = snd (Load E c)"
| "step E (DoValue key) c = snd (Value E key c)"
| "step E (DoWatch key ob) c = snd (Watch E key ob c)"
| "step E (DoScan vs) c = snd (snd (Scan E vs c))"
| "step E DoClose c = snd (Close c)"
| "step E (DoWatchIter w nx) c = snd (watch_iter E w nx c)"

fun run :: "('r, 't) env \<Rightarrow> 't action list \<Rightarrow> 'r config \<Rightarrow> 'r config" where
  "run E [] c = c"
| "run E (a # as) c = run E as (step E a c)"

subsection \<open>Notions used to state the properties\<close>

text \<open>What a source yields, and what merging a sequence of batches does to the Reader.\<close>

definition loaded :: "source \<Rightarrow> kv list" where
  "loaded src = (case s_Load src of Inr kvs \<Rightarrow> kvs | Inl err \<Rightarrow> [])"

definition watching :: "source \<Rightarrow> bool" where
  "watching src = (case s_Watch src of Inr w \<Rightarrow> True | Inl err \<Rightarrow> False)"

definition loads :: "source \<Rightarrow> bool" where
  "loads src = (case s_Load src of Inr kvs \<Rightarrow> True | Inl err \<Rightarrow> False)"

definition watcher_of :: "source \<Rightarrow> watcher" where
  "watcher_of src = (case s_Watch src of Inr w \<Rightarrow> w | Inl err \<Rightarrow> \<lparr>w_id = 0, w_Stop = None\<rparr>)"

fun merge_each :: "('r, 't) env \<Rightarrow> 'r \<Rightarrow> kv list list \<Rightarrow> 'r" where
  "merge_each E r [] = r"
| "merge_each E r (kvs # rest) = merge_each E (fst (r_Merge E kvs r)) rest"

fun merges_ok :: "('r, 't) env \<Rightarrow> 'r \<Rightarrow> kv list list \<Rightarrow> bool" where
  "merges_ok E r [] = True"
| "merges_ok E r (kvs # rest) =
     (snd (r_Merge E kvs r) = None \<and> merges_ok E (fst (r_Merge E kvs r)) rest)"

definition source_events :: "source \<Rightarrow> event list" where
  "source_events src =
     [CallSourceLoad (s_id src)]
     @ map (\<lambda>v. Debugf ''config loaded: %s format: %s'' (kv_Key v) (kv_Format v)) (loaded src)
     @ [CallMerge (loaded src), CallSourceWatch (s_id src), Go_watch (w_id (watcher_of src))]"

text \<open>A \<^verbatim>\<open>Next\<close> result that makes the loop return.\<close>

definition is_cancel :: "error + kv list \<Rightarrow> bool" where
  "is_cancel nx = (case nx of Inl err \<Rightarrow> errors_Is err ContextCanceled | Inr kvs \<Rightarrow> False)"

text \<open>
  The change test of the loop, on the Reader's answer and the cached payload; the events
  and the cell it leaves for one cache entry, read off the state the scan starts in.
\<close>

definition comparable_change :: "payload option \<Rightarrow> payload \<Rightarrow> bool" where
  "comparable_change fresh old =
     (case fresh of
        None \<Rightarrow> False
      | Some p \<Rightarrow> reflect_TypeOf p = reflect_TypeOf old \<and> \<not> reflect_DeepEqual p old)"

definition entry_events :: "('r, 't) env \<Rightarrow> 'r config \<Rightarrow> string \<times> nat \<Rightarrow> event list" where
  "entry_events E c e =
     (case r_Value E (reader c) (fst e) of
        None \<Rightarrow> []
      | Some p \<Rightarrow>
          if comparable_change (Some p) (Load_at (snd e) c)
          then CallStore (snd e) p #
               (case observers c (fst e) of Some ob \<Rightarrow> [CallObserver ob (fst e) (snd e)] | None \<Rightarrow> [])
          else [])"

definition entry_cell :: "('r, 't) env \<Rightarrow> 'r config \<Rightarrow> string \<times> nat \<Rightarrow> val" where
  "entry_cell E c e =
     (case r_Value E (reader c) (fst e) of
        None \<Rightarrow> heap c ! snd e
      | Some p \<Rightarrow>
          if comparable_change (Some p) (Load_at (snd e) c)
          then val_Store p (heap c ! snd e)
          else heap c ! snd e)"

fun is_store_to :: "nat \<Rightarrow> event \<Rightarrow> bool" where
  "is_store_to a (CallStore b p) = (a = b)"
| "is_store_to a e = False"

fun is_observer_call_for :: "string \<Rightarrow> event \<Rightarrow> bool" where
  "is_observer_call_for k (CallObserver ob k' v) = (k = k')"
| "is_observer_call_for k e = False"

definition cache_wf :: "'r config \<Rightarrow> bool" where
  "cache_wf c =
     (distinct (map fst (cached c)) \<and> distinct (map snd (cached c))
      \<and> list_all (\<lambda>e. snd e < length (heap c)) (cached c))"

text \<open>
  Reachable states keep observers on cached keys only, and every callback invocation of
  the trace is for an entry of the cache.
\<close>

fun is_observer_call :: "event \<Rightarrow> bool" where
  "is_observer_call (CallObserver ob k v) = True"
| "is_observer_call e = False"

fun observer_call_cached :: "(string \<times> nat) list \<Rightarrow> event \<Rightarrow> bool" where
  "observer_call_cached cs (CallObserver ob k v) = (map_of cs k = Some v)"
| "observer_call_cached cs e = True"

definition observers_cached :: "'r config \<Rightarrow> bool" where
  "observers_cached c = (\<forall>k. observers c k \<noteq> None \<longrightarrow> map_of (cached c) k \<noteq> None)"

definition config_inv :: "'r config \<Rightarrow> bool" where
  "config_inv c =
     (cache_wf c \<and> observers_cached c \<and> list_all (observer_call_cached (cached c)) (trace c))"

subsection \<open>Concrete instances\<close>

text \<open>
  An in-memory Reader and a decoder into bounded buffers, for concrete instances. The
  Reader keeps a key-value list; it accepts fragments of format \<open>json\<close> whose value is
  one scalar, and resolves unless a value is the empty placeholder. A target of the
  decoder is a buffer with a capacity: the decoder fills it from the snapshot and
  reports an error when the snapshot did not fit.
\<close>

definition is_digit :: "char \<Rightarrow> bool" where
  "is_digit ch = (48 \<le> (of_char ch :: nat) \<and> (of_char ch :: nat) \<le> 57)"

definition demo_parse :: "bytes \<Rightarrow> payload" where
  "demo_parse s =
     (if s = ''null'' then PNil
      else if s = ''true'' then PBool True
      else if s = ''false'' then PBool False
      else if s \<noteq> [] \<and> list_all is_digit s
      then PInt (int (foldl (\<lambda>n ch. 10 * n + (of_char ch - 48)) 0 s))
      else PString s)"

definition demo_env :: "((string \<times> payload) list, nat \<times> bytes) env" where
  "demo_env =
     \<lparr>r_Merge = (\<lambda>kvs r.
        if list_ex (\<lambda>v. kv_Format v \<noteq> ''json'') kvs
        then (r, Some (ErrOther ''unknown format''))
        else (foldl (\<lambda>r v. AList.update (kv_Key v) (demo_parse (kv_Value v)) r) r kvs, None)),
      r_Resolve = (\<lambda>r.
        if list_ex (\<lambda>e. snd e = PString ''${}'') r
        then (r, Some (ErrOther ''unresolved placeholder''))
        else (r, None)),
      r_Value = map_of,
      r_Source = (\<lambda>r.
        if r = [] then Inl (ErrOther ''nothing loaded'')
        else Inr (concat (map (\<lambda>e. fst e @ '';'') r))),
      unmarshalJSON = (\<lambda>data t.
        ((fst t, take (fst t) data),
         if fst t < length data then Some (ErrOther ''target too small'') else None))\<rparr>"

definition json :: "string \<Rightarrow> bytes \<Rightarrow> kv" where
  "json k v = \<lparr>kv_Key = k, kv_Value = v, kv_Format = ''json''\<rparr>"

definition ex_watchers :: "watcher list" where
  "ex_watchers =
     [\<lparr>w_id = 1, w_Stop = None\<rparr>,
      \<lparr>w_id = 2, w_Stop = Some (ErrOther ''stop failed'')\<rparr>,
      \<lparr>w_id = 3, w_Stop = None\<rparr>]"

text \<open>Sources: two that work, one that cannot be read, one in a format the Reader
  refuses, one that cannot be watched.\<close>

definition src_A :: source where
  "src_A = \<lparr>s_id = 1, s_Load = Inr [json ''level'' ''info''],
             s_Watch = Inr \<lparr>w_id = 1, w_Stop = None\<rparr>\<rparr>"

definition src_B :: source where
  "src_B = \<lparr>s_id = 2, s_Load = Inr [json ''level'' ''debug''],
             s_Watch = Inr \<lparr>w_id = 2, w_Stop = None\<rparr>\<rparr>"

definition src_unreadable :: source where
  "src_unreadable = \<lparr>s_id = 3, s_Load = Inl (ErrOther ''no such file''),
             s_Watch = Inr \<lparr>w_id = 3, w_Stop = None\<rparr>\<rparr>"

definition src_yaml :: source where
  "src_yaml = \<lparr>s_id = 4,
             s_Load = Inr [\<lparr>kv_Key = ''level'', kv_Value = ''warn'', kv_Format = ''yaml''\<rparr>],
             s_Watch = Inr \<lparr>w_id = 4, w_Stop = None\<rparr>\<rparr>"

definition src_unwatchable :: source where
  "src_unwatchable = \<lparr>s_id = 5, s_Load = Inr [json ''port'' ''8080''],
             s_Watch = Inl (ErrOther ''watch unsupported'')\<rparr>"

text \<open>A state with two cached keys, both observed.\<close>

definition ex_config :: "(string \<times> payload) list config" where
  "ex_config =
     \<lparr>sources = [], reader = [(''level'', PString ''info''), (''port'', PInt 1)],
      cached = [(''level'', 0), (''port'', 1)],
      observers = [''level'' \<mapsto> 7, ''port'' \<mapsto> 8],
      watchers = [], heap = [Live (PString ''info''), Live (PInt 1)], trace = []\<rparr>"

section \<open>Properties\<close>

subsection \<open>The trace, and Close\<close>

lemma emit_simps [simp]:
  "sources (emit e c) = sources c" "reader (emit e c) = reader c"
  "cached (emit e c) = cached c" "observers (emit e c) = observers c"
  "watchers (emit e c) = watchers c" "heap (emit e c) = heap c"
  "trace (emit e c) = trace c @ [e]"
  by (simp_all add: emit_def)

lemma emits_simps [simp]:
  "sources (emits es c) = sources c" "reader (emits es c) = reader c"
  "cached (emits es c) = cached c" "observers (emits es c) = observers c"
  "watchers (emits es c) = watchers c" "heap (emits es c) = heap c"
  "trace (emits es c) = trace c @ es"
  by (simp_all add: emits_def)

lemma emits_Nil [simp]: "emits [] c = c"
  by (simp add: emits_def)

lemma emits_emit: "emits es (emit e c) = emits (e # es) c"
  by (simp add: emits_def emit_def)

lemma emits_emits [simp]: "emits es (emits ds c) = emits (ds @ es) c"
  by (simp add: emits_def)

lemma emit_emits [simp]: "emit e (emits ds c) = emits (ds @ [e]) c"
  by (simp add: emits_def emit_def)

lemma emit_as_emits: "emit e c = emits [e] c"
  by (simp add: emits_def emit_def)

lemma stop_all_ok:
  "list_all (\<lambda>w. w_Stop w = None) pre \<Longrightarrow>
   stop_all (pre @ rest) c = stop_all rest (emits (map (\<lambda>w. CallStop (w_id w)) pre) c)"
  by (induction pre arbitrary: c) (simp_all add: emits_emit)

text \<open>
  Claim C7. \<^verbatim>\<open>Close\<close> stops the tracked watchers in registration order. If every
  \<^verbatim>\<open>Stop\<close> succeeds (also when no watcher is tracked) it returns nil, having stopped all
  of them. If the watchers are \<open>pre @ w # post\<close>, those of \<open>pre\<close> stop and \<open>w\<close> fails,
  it returns the error of \<open>w\<close> at once: exactly \<open>pre\<close> and \<open>w\<close> have been asked to stop,
  none of \<open>post\<close>.
\<close>

theorem Close_first_failure:
  "(list_all (\<lambda>w. w_Stop w = None) (watchers c) \<longrightarrow>
      Close c = (None, emits (map (\<lambda>w. CallStop (w_id w)) (watchers c)) c))
   \<and> (watchers c = pre @ w # post \<and> list_all (\<lambda>w. w_Stop w = None) pre \<and> w_Stop w = Some err \<longrightarrow>
      Close c = (Some err, emits (map (\<lambda>w. CallStop (w_id w)) (pre @ [w])) c))"
proof (intro conjI impI)
  assume "list_all (\<lambda>w. w_Stop w = None) (watchers c)"
  from stop_all_ok [OF this, of "[]" c]
  show "Close c = (None, emits (map (\<lambda>w. CallStop (w_id w)) (watchers c)) c)"
    by (simp add: Close_def)
next
  assume a: "watchers c = pre @ w # post \<and> list_all (\<lambda>w. w_Stop w = None) pre \<and> w_Stop w = Some err"
  then have "stop_all (pre @ w # post) c =
      stop_all (w # post) (emits (map (\<lambda>w. CallStop (w_id w)) pre) c)"
    using stop_all_ok by blast
  with a show "Close c = (Some err, emits (map (\<lambda>w. CallStop (w_id w)) (pre @ [w])) c)"
    by (simp add: Close_def)
qed

theorem Close_first_failure_witness:
  "Close ((New [] ())\<lparr>watchers := ex_watchers\<rparr>) =
     (Some (ErrOther ''stop failed''),
      (New [] ())\<lparr>watchers := ex_watchers, trace := [CallStop 1, CallStop 2]\<rparr>)
   \<and> Close ((New [] ())\<lparr>watchers := [\<lparr>w_id = 1, w_Stop = None\<rparr>, \<lparr>w_id = 3, w_Stop = None\<rparr>]\<rparr>) =
     (None,
      (New [] ())\<lparr>watchers := [\<lparr>w_id = 1, w_Stop = None\<rparr>, \<lparr>w_id = 3, w_Stop = None\<rparr>],
         trace := [CallStop 1, CallStop 3]\<rparr>)"
  using Close_first_failure [of "(New [] ())\<lparr>watchers := ex_watchers\<rparr>"
      "[\<lparr>w_id = 1, w_Stop = None\<rparr>]" "\<lparr>w_id = 2, w_Stop = Some (ErrOther ''stop failed'')\<rparr>"
      "[\<lparr>w_id = 3, w_Stop = None\<rparr>]" "ErrOther ''stop failed''"]
    Close_first_failure [of "(New [] ())\<lparr>watchers := [\<lparr>w_id = 1, w_Stop = None\<rparr>, \<lparr>w_id = 3, w_Stop = None\<rparr>]\<rparr>"]
  by (simp add: ex_watchers_def New_def emits_def)

subsection \<open>What each operation leaves unchanged; the cases of a loop iteration\<close>

lemma alloc_simps [simp]:
  "fst (alloc v c) = length (heap c)"
  "sources (snd (alloc v c)) = sources c" "reader (snd (alloc v c)) = reader c"
  "cached (snd (alloc v c)) = cached c" "observers (snd (alloc v c)) = observers c"
  "watchers (snd (alloc v c)) = watchers c" "heap (snd (alloc v c)) = heap c @ [v]"
  "trace (snd (alloc v c)) = trace c"
  by (simp_all add: alloc_def)

lemma Store_at_simps [simp]:
  "sources (Store_at a p c) = sources c" "reader (Store_at a p c) = reader c"
  "cached (Store_at a p c) = cached c" "observers (Store_at a p c) = observers c"
  "watchers (Store_at a p c) = watchers c"
  "heap (Store_at a p c) = (heap c)[a := val_Store p (heap c ! a)]"
  "trace (Store_at a p c) = trace c @ [CallStore a p]"
  by (simp_all add: Store_at_def)

lemma reader_Value_miss:
  "r_Value E (reader c) k = None \<Longrightarrow> reader_Value E k c = (None, c)"
  by (simp add: reader_Value_def)

lemma reader_Value_hit:
  "r_Value E (reader c) k = Some p \<Longrightarrow>
   reader_Value E k c = (Some (length (heap c)), c\<lparr>heap := heap c @ [Live p]\<rparr>)"
  by (simp add: reader_Value_def alloc_def)

lemma reader_Value_frame [simp]:
  "sources (snd (reader_Value E k c)) = sources c" "reader (snd (reader_Value E k c)) = reader c"
  "cached (snd (reader_Value E k c)) = cached c" "observers (snd (reader_Value E k c)) = observers c"
  "watchers (snd (reader_Value E k c)) = watchers c" "trace (snd (reader_Value E k c)) = trace c"
  by (cases "r_Value E (reader c) k"; simp add: reader_Value_miss reader_Value_hit)+


lemma range_body_frame [simp]:
  "sources (range_body E k v c) = sources c" "reader (range_body E k v c) = reader c"
  "cached (range_body E k v c) = cached c" "observers (range_body E k v c) = observers c"
  "watchers (range_body E k v c) = watchers c"
  by (cases "r_Value E (reader c) k";
      simp add: range_body_def reader_Value_miss reader_Value_hit Let_def split: option.splits)+

lemma cached_Range_frame [simp]:
  "sources (cached_Range E es c) = sources c" "reader (cached_Range E es c) = reader c"
  "cached (cached_Range E es c) = cached c" "observers (cached_Range E es c) = observers c"
  "watchers (cached_Range E es c) = watchers c"
  by (induction E es c rule: cached_Range.induct; simp)+


lemma watch_iter_cancel:
  "errors_Is err ContextCanceled \<Longrightarrow>
   watch_iter E w (Inl err) c =
     (Return, emits [CallNext w, Infof ''watcher's ctx cancel : %v'' err] c)"
  by (simp add: watch_iter_def emit_def emits_def)

lemma watch_iter_error:
  "\<not> errors_Is err ContextCanceled \<Longrightarrow>
   watch_iter E w (Inl err) c =
     (Continue, emits [CallNext w, Sleep time_Second, Errorf ''failed to watch next config: %v'' err] c)"
  by (simp add: watch_iter_def emit_def emits_def)

lemma watch_iter_merge_failed:
  "r_Merge E kvs (reader c) = (r1, Some err) \<Longrightarrow>
   watch_iter E w (Inr kvs) c =
     (Continue,
      emits [CallNext w, CallMerge kvs, Errorf ''failed to merge next config: %v'' err]
        (c\<lparr>reader := r1\<rparr>))"
  by (simp add: watch_iter_def emit_def emits_def)

lemma watch_iter_resolve_failed:
  "r_Merge E kvs (reader c) = (r1, None) \<Longrightarrow> r_Resolve E r1 = (r2, Some err) \<Longrightarrow>
   watch_iter E w (Inr kvs) c =
     (Continue,
      emits [CallNext w, CallMerge kvs, CallResolve, Errorf ''failed to resolve next config: %v'' err]
        (c\<lparr>reader := r2\<rparr>))"
  by (simp add: watch_iter_def emit_def emits_def)

lemma watch_iter_scan:
  "r_Merge E kvs (reader c) = (r1, None) \<Longrightarrow> r_Resolve E r1 = (r2, None) \<Longrightarrow>
   watch_iter E w (Inr kvs) c =
     (Continue,
      cached_Range E (cached c) (emits [CallNext w, CallMerge kvs, CallResolve] (c\<lparr>reader := r2\<rparr>)))"
  by (simp add: watch_iter_def emit_def emits_def)

lemma watch_iter_cases:
  obtains (cancel) err where "nx = Inl err" "errors_Is err ContextCanceled"
  | (error) err where "nx = Inl err" "\<not> errors_Is err ContextCanceled"
  | (merge_failed) kvs r1 err where "nx = Inr kvs" "r_Merge E kvs (reader c) = (r1, Some err)"
  | (resolve_failed) kvs r1 r2 err where "nx = Inr kvs" "r_Merge E kvs (reader c) = (r1, None)"
      "r_Resolve E r1 = (r2, Some err)"
  | (scan) kvs r1 r2 where "nx = Inr kvs" "r_Merge E kvs (reader c) = (r1, None)"
      "r_Resolve E r1 = (r2, None)"
proof (cases nx)
  case (Inl err)
  then show ?thesis using cancel error by blast
next
  case (Inr kvs)
  obtain r1 m where m: "r_Merge E kvs (reader c) = (r1, m)" by (cases "r_Merge E kvs (reader c)")
  obtain r2 m2 where r: "r_Resolve E r1 = (r2, m2)" by (cases "r_Resolve E r1")
  show ?thesis
  proof (cases m)
    case None
    with Inr m r show ?thesis using resolve_failed scan by (cases m2) blast+
  next
    case (Some err)
    with Inr m show ?thesis using merge_failed by blast
  qed
qed

lemma watch_iter_frame [simp]:
  "sources (snd (watch_iter E w nx c)) = sources c"
  "cached (snd (watch_iter E w nx c)) = cached c"
  "observers (snd (watch_iter E w nx c)) = observers c"
  "watchers (snd (watch_iter E w nx c)) = watchers c"
  by (rule watch_iter_cases [where nx = nx and E = E and c = c];
      simp add: watch_iter_cancel watch_iter_error watch_iter_merge_failed
        watch_iter_resolve_failed watch_iter_scan)+

subsection \<open>Load, source by source\<close>

lemma load_sources_load_failed:
  "s_Load src = Inl err \<Longrightarrow>
   load_sources E (src # rest) c = (Some err, emits [CallSourceLoad (s_id src)] c)"
  by (simp add: emit_def emits_def)

lemma load_sources_merge_failed:
  "s_Load src = Inr kvs \<Longrightarrow> r_Merge E kvs (reader c) = (r1, Some err) \<Longrightarrow>
   load_sources E (src # rest) c =
     (Some err,
      emits ([CallSourceLoad (s_id src)]
             @ map (\<lambda>v. Debugf ''config loaded: %s format: %s'' (kv_Key v) (kv_Format v)) kvs
             @ [CallMerge kvs, Errorf ''failed to merge config source: %v'' err])
        (c\<lparr>reader := r1\<rparr>))"
  by (simp add: emit_def emits_def)

lemma load_sources_watch_failed:
  "s_Load src = Inr kvs \<Longrightarrow> r_Merge E kvs (reader c) = (r1, None) \<Longrightarrow> s_Watch src = Inl err \<Longrightarrow>
   load_sources E (src # rest) c =
     (Some err,
      emits ([CallSourceLoad (s_id src)]
             @ map (\<lambda>v. Debugf ''config loaded: %s format: %s'' (kv_Key v) (kv_Format v)) kvs
             @ [CallMerge kvs, CallSourceWatch (s_id src),
                Errorf ''failed to watch config source: %v'' err])
        (c\<lparr>reader := r1\<rparr>))"
  by (simp add: emit_def emits_def)

lemma load_sources_next:
  "s_Load src = Inr kvs \<Longrightarrow> r_Merge E kvs (reader c) = (r1, None) \<Longrightarrow> s_Watch src = Inr w \<Longrightarrow>
   load_sources E (src # rest) c =
     load_sources E rest
       (emits (source_events src) (c\<lparr>reader := r1, watchers := watchers c @ [w]\<rparr>))"
  by (simp add: emit_def emits_def source_events_def loaded_def watcher_of_def)

lemma load_sources_prefix:
  "list_all (\<lambda>s. loads s \<and> watching s) pre \<Longrightarrow> merges_ok E (reader c) (map loaded pre) \<Longrightarrow>
   load_sources E (pre @ rest) c =
     load_sources E rest
       (emits (concat (map source_events pre))
          (c\<lparr>reader := merge_each E (reader c) (map loaded pre),
             watchers := watchers c @ map watcher_of pre\<rparr>))"
proof (induction pre arbitrary: c)
  case Nil
  then show ?case by simp
next
  case (Cons s pre)
  from Cons.prems obtain kvs w where s: "s_Load s = Inr kvs" "s_Watch s = Inr w"
    by (auto simp: loads_def watching_def split: sum.splits)
  then have l: "loaded s = kvs" "watcher_of s = w" by (simp_all add: loaded_def watcher_of_def)
  obtain r1 where m: "r_Merge E kvs (reader c) = (r1, None)"
    using Cons.prems(2) l by (cases "r_Merge E kvs (reader c)") auto
  let ?c1 = "emits (source_events s) (c\<lparr>reader := r1, watchers := watchers c @ [w]\<rparr>)"
  have "load_sources E ((s # pre) @ rest) c = load_sources E (pre @ rest) ?c1"
    using load_sources_next [OF s(1) m s(2)] by simp
  also have "\<dots> = load_sources E rest
       (emits (concat (map source_events pre))
          (?c1\<lparr>reader := merge_each E (reader ?c1) (map loaded pre),
             watchers := watchers ?c1 @ map watcher_of pre\<rparr>))"
    using Cons.prems m l by (intro Cons.IH) simp_all
  also have "(emits (concat (map source_events pre))
          (?c1\<lparr>reader := merge_each E (reader ?c1) (map loaded pre),
             watchers := watchers ?c1 @ map watcher_of pre\<rparr>)) =
     emits (concat (map source_events (s # pre)))
          (c\<lparr>reader := merge_each E (reader c) (map loaded (s # pre)),
             watchers := watchers c @ map watcher_of (s # pre)\<rparr>)"
    using m l by (simp add: emits_def)
  finally show ?case .
qed

lemma load_sources_frame_all:
  "sources (snd (load_sources E srcs c)) = sources c
   \<and> cached (snd (load_sources E srcs c)) = cached c
   \<and> observers (snd (load_sources E srcs c)) = observers c
   \<and> heap (snd (load_sources E srcs c)) = heap c"
proof (induction srcs arbitrary: c)
  case Nil
  show ?case by simp
next
  case (Cons s srcs)
  obtain r1 m where m: "r_Merge E (loaded s) (reader c) = (r1, m)"
    by (cases "r_Merge E (loaded s) (reader c)")
  show ?case
  proof (cases "s_Load s")
    case (Inl err)
    from load_sources_load_failed [OF this, of E srcs c] show ?thesis
      by (simp del: load_sources.simps)
  next
    case (Inr kvs)
    then have k: "loaded s = kvs" by (simp add: loaded_def)
    show ?thesis
    proof (cases m)
      case (Some err)
      with Inr m k have "r_Merge E kvs (reader c) = (r1, Some err)" by simp
      from load_sources_merge_failed [OF Inr this, of srcs] show ?thesis
        by (simp del: load_sources.simps)
    next
      case None
      with m k have mk: "r_Merge E kvs (reader c) = (r1, None)" by simp
      show ?thesis
      proof (cases "s_Watch s")
        case (Inl err)
        from load_sources_watch_failed [OF Inr mk Inl, of srcs] show ?thesis
          by (simp del: load_sources.simps)
      next
        case w: (Inr w)
        from load_sources_next [OF Inr mk w, of srcs] show ?thesis
          by (simp add: Cons.IH del: load_sources.simps)
      qed
    qed
  qed
qed

lemma load_sources_frame [simp]:
  "sources (snd (load_sources E srcs c)) = sources c"
  "cached (snd (load_sources E srcs c)) = cached c"
  "observers (snd (load_sources E srcs c)) = observers c"
  "heap (snd (load_sources E srcs c)) = heap c"
  using load_sources_frame_all [of E srcs c] by blast+

lemma Load_frame [simp]:
  "sources (snd (Load E c)) = sources c"
  "cached (snd (Load E c)) = cached c"
  "observers (snd (Load E c)) = observers c"
  "heap (snd (Load E c)) = heap c"
proof -
  obtain res c1 where l: "load_sources E (sources c) c = (res, c1)"
    by (cases "load_sources E (sources c) c")
  then have f: "sources c1 = sources c" "cached c1 = cached c" "observers c1 = observers c"
      "heap c1 = heap c"
    using load_sources_frame [of E "sources c" c] by simp_all
  obtain r2 res2 where r: "r_Resolve E (reader c1) = (r2, res2)"
    by (cases "r_Resolve E (reader c1)")
  show "sources (snd (Load E c)) = sources c" "cached (snd (Load E c)) = cached c"
    "observers (snd (Load E c)) = observers c" "heap (snd (Load E c)) = heap c"
    using l r f by (cases res; cases res2; simp add: Load_def)+
qed

lemma Load_after_sources:
  "load_sources E (sources c) c = (None, c1) \<Longrightarrow> r_Resolve E (reader c1) = (r2, res) \<Longrightarrow>
   Load E c =
     (res,
      emits (CallResolve #
             (case res of None \<Rightarrow> [] | Some err \<Rightarrow> [Errorf ''failed to resolve config source: %v'' err]))
        (c1\<lparr>reader := r2\<rparr>))"
  by (cases res) (simp_all add: Load_def emit_def emits_def)

lemma Load_aborted:
  "load_sources E (sources c) c = (Some err, c1) \<Longrightarrow> Load E c = (Some err, c1)"
  by (simp add: Load_def)

lemma count_source_events [simp]: "count_list (source_events s) CallResolve = 0"
  by (induction "loaded s") (auto simp: source_events_def count_list_append count_list_0_iff)

lemma count_concat_source_events [simp]:
  "count_list (concat (map source_events srcs)) CallResolve = 0"
  by (induction srcs) (simp_all add: count_list_append)

text \<open>
  Claim C5. \<^verbatim>\<open>Load\<close> goes through the configured sources in order, and for each one
  calls \<^verbatim>\<open>Source.Load\<close>, logs and merges the loaded fragments, calls
  \<^verbatim>\<open>Source.Watch\<close>, records the watcher and starts its loop. When every step of every
  source succeeds, \<^verbatim>\<open>Reader.Resolve\<close> is called exactly once, after all of them, and
  \<^verbatim>\<open>Load\<close> returns what it returns (nil on success). The first failing step of a
  source \<open>s\<close> aborts \<^verbatim>\<open>Load\<close> with that error: nothing of the later sources is
  touched, \<^verbatim>\<open>Resolve\<close> is not called, and the Reader keeps what the earlier sources
  (and a failing or succeeded merge of \<open>s\<close>) left in it, with their watchers recorded.
\<close>

theorem Load_sources_in_order:
  "(list_all (\<lambda>s. loads s \<and> watching s) (sources c)
      \<and> merges_ok E (reader c) (map loaded (sources c))
      \<and> r_Resolve E (merge_each E (reader c) (map loaded (sources c))) = (rr, res) \<longrightarrow>
      Load E c =
        (res,
         emits (concat (map source_events (sources c)) @ CallResolve #
                (case res of None \<Rightarrow> []
                 | Some err \<Rightarrow> [Errorf ''failed to resolve config source: %v'' err]))
           (c\<lparr>reader := rr, watchers := watchers c @ map watcher_of (sources c)\<rparr>))
      \<and> count_list (drop (length (trace c)) (trace (snd (Load E c)))) CallResolve = 1)
   \<and> (sources c = pre @ s # post \<and> list_all (\<lambda>s. loads s \<and> watching s) pre
      \<and> merges_ok E (reader c) (map loaded pre) \<longrightarrow>
      (s_Load s = Inl err \<longrightarrow>
         Load E c =
           (Some err,
            emits (concat (map source_events pre) @ [CallSourceLoad (s_id s)])
              (c\<lparr>reader := merge_each E (reader c) (map loaded pre),
                 watchers := watchers c @ map watcher_of pre\<rparr>)))
      \<and> (s_Load s = Inr kvs \<and> r_Merge E kvs (merge_each E (reader c) (map loaded pre)) = (rm, Some err) \<longrightarrow>
         Load E c =
           (Some err,
            emits (concat (map source_events pre) @ [CallSourceLoad (s_id s)]
                   @ map (\<lambda>v. Debugf ''config loaded: %s format: %s'' (kv_Key v) (kv_Format v)) kvs
                   @ [CallMerge kvs, Errorf ''failed to merge config source: %v'' err])
              (c\<lparr>reader := rm, watchers := watchers c @ map watcher_of pre\<rparr>)))
      \<and> (s_Load s = Inr kvs \<and> r_Merge E kvs (merge_each E (reader c) (map loaded pre)) = (rm, None)
          \<and> s_Watch s = Inl err \<longrightarrow>
         Load E c =
           (Some err,
            emits (concat (map source_events pre) @ [CallSourceLoad (s_id s)]
                   @ map (\<lambda>v. Debugf ''config loaded: %s format: %s'' (kv_Key v) (kv_Format v)) kvs
                   @ [CallMerge kvs, CallSourceWatch (s_id s),
                      Errorf ''failed to watch config source: %v'' err])
              (c\<lparr>reader := rm, watchers := watchers c @ map watcher_of pre\<rparr>))))"
proof (intro conjI impI)
  assume h: "list_all (\<lambda>s. loads s \<and> watching s) (sources c)
      \<and> merges_ok E (reader c) (map loaded (sources c))
      \<and> r_Resolve E (merge_each E (reader c) (map loaded (sources c))) = (rr, res)"
  let ?c1 = "emits (concat (map source_events (sources c)))
          (c\<lparr>reader := merge_each E (reader c) (map loaded (sources c)),
             watchers := watchers c @ map watcher_of (sources c)\<rparr>)"
  from h have "load_sources E (sources c @ []) c = load_sources E [] ?c1"
    by (intro load_sources_prefix) simp_all
  then have l: "load_sources E (sources c) c = (None, ?c1)" by simp
  from h have r: "r_Resolve E (reader ?c1) = (rr, res)" by simp
  show eq: "Load E c =
        (res,
         emits (concat (map source_events (sources c)) @ CallResolve #
                (case res of None \<Rightarrow> []
                 | Some err \<Rightarrow> [Errorf ''failed to resolve config source: %v'' err]))
           (c\<lparr>reader := rr, watchers := watchers c @ map watcher_of (sources c)\<rparr>))"
    unfolding Load_after_sources [OF l r] by (simp add: emits_def)
  show "count_list (drop (length (trace c)) (trace (snd (Load E c)))) CallResolve = 1"
    unfolding eq by (cases res) (simp_all add: count_list_append)
next
  assume h: "sources c = pre @ s # post \<and> list_all (\<lambda>s. loads s \<and> watching s) pre
      \<and> merges_ok E (reader c) (map loaded pre)"
  let ?c1 = "emits (concat (map source_events pre))
          (c\<lparr>reader := merge_each E (reader c) (map loaded pre),
             watchers := watchers c @ map watcher_of pre\<rparr>)"
  from h have p: "load_sources E (sources c) c = load_sources E (s # post) ?c1"
    using load_sources_prefix [of pre E c "s # post"] by simp
  {
    assume "s_Load s = Inl err"
    from load_sources_load_failed [OF this, of E post ?c1] p
    have "load_sources E (sources c) c = (Some err, emits [CallSourceLoad (s_id s)] ?c1)"
      by simp
    from Load_aborted [OF this]
    show "Load E c =
           (Some err,
            emits (concat (map source_events pre) @ [CallSourceLoad (s_id s)])
              (c\<lparr>reader := merge_each E (reader c) (map loaded pre),
                 watchers := watchers c @ map watcher_of pre\<rparr>))"
      by simp
  next
    assume a: "s_Load s = Inr kvs \<and> r_Merge E kvs (merge_each E (reader c) (map loaded pre)) = (rm, Some err)"
    then have "r_Merge E kvs (reader ?c1) = (rm, Some err)" by simp
    from load_sources_merge_failed [OF _ this, of s post] a p
    have "load_sources E (sources c) c =
      (Some err,
        emits ([CallSourceLoad (s_id s)]
             @ map (\<lambda>v. Debugf ''config loaded: %s format: %s'' (kv_Key v) (kv_Format v)) kvs
             @ [CallMerge kvs, Errorf ''failed to merge config source: %v'' err])
        (?c1\<lparr>reader := rm\<rparr>))"
      by simp
    from Load_aborted [OF this]
    show "Load E c =
           (Some err,
            emits (concat (map source_events pre) @ [CallSourceLoad (s_id s)]
                   @ map (\<lambda>v. Debugf ''config loaded: %s format: %s'' (kv_Key v) (kv_Format v)) kvs
                   @ [CallMerge kvs, Errorf ''failed to merge config source: %v'' err])
              (c\<lparr>reader := rm, watchers := watchers c @ map watcher_of pre\<rparr>))"
      by (simp add: emits_def)
  next
    assume a: "s_Load s = Inr kvs \<and> r_Merge E kvs (merge_each E (reader c) (map loaded pre)) = (rm, None)
          \<and> s_Watch s = Inl err"
    then have "r_Merge E kvs (reader ?c1) = (rm, None)" by simp
    from load_sources_watch_failed [OF _ this, of s err post] a p
    have "load_sources E (sources c) c =
      (Some err,
        emits ([CallSourceLoad (s_id s)]
             @ map (\<lambda>v. Debugf ''config loaded: %s format: %s'' (kv_Key v) (kv_Format v)) kvs
             @ [CallMerge kvs, CallSourceWatch (s_id s),
                Errorf ''failed to watch config source: %v'' err])
        (?c1\<lparr>reader := rm\<rparr>))"
      by simp
    from Load_aborted [OF this]
    show "Load E c =
           (Some err,
            emits (concat (map source_events pre) @ [CallSourceLoad (s_id s)]
                   @ map (\<lambda>v. Debugf ''config loaded: %s format: %s'' (kv_Key v) (kv_Format v)) kvs
                   @ [CallMerge kvs, CallSourceWatch (s_id s),
                      Errorf ''failed to watch config source: %v'' err])
              (c\<lparr>reader := rm, watchers := watchers c @ map watcher_of pre\<rparr>))"
      by (simp add: emits_def)
  }
qed

subsection \<open>Value and Watch\<close>

lemma Value_cached:
  "map_of (cached c) key = Some v \<Longrightarrow> Value E key c = (v, c)"
  by (simp add: Value_def)

lemma update_fresh: "map_of al k = None \<Longrightarrow> AList.update k v al = al @ [(k, v)]"
  by (induction al) (auto split: if_splits)

lemma Value_hit:
  "map_of (cached c) key = None \<Longrightarrow> r_Value E (reader c) key = Some p \<Longrightarrow>
   Value E key c =
     (length (heap c),
      c\<lparr>heap := heap c @ [Live p], cached := cached c @ [(key, length (heap c))]\<rparr>)"
  by (simp add: Value_def reader_Value_hit update_fresh)

lemma Value_miss:
  "map_of (cached c) key = None \<Longrightarrow> r_Value E (reader c) key = None \<Longrightarrow>
   Value E key c = (length (heap c), c\<lparr>heap := heap c @ [ErrValue ErrNotFound]\<rparr>)"
  by (simp add: Value_def reader_Value_miss alloc_def)

text \<open>
  Claim C3. \<^verbatim>\<open>Value(key)\<close> returns the cached Value object when there is one, and
  changes nothing. Otherwise, on a Reader hit, the fresh object holding the Reader's
  payload is entered in the cache under \<open>key\<close> and returned. On a Reader miss the result
  is a fresh error value carrying \<^verbatim>\<open>ErrNotFound\<close>, whose \<^verbatim>\<open>Load\<close> is nil, and the
  cache is unchanged. The last case is in particular the same after a \<^verbatim>\<open>Load\<close> or an
  iteration of a reconciliation loop that leaves the key absent from the Reader.
\<close>

theorem Value_cached_or_reader_or_not_found:
  "(map_of (cached c) key = Some v \<longrightarrow> Value E key c = (v, c))
   \<and> (map_of (cached c) key = None \<and> r_Value E (reader c) key = Some p \<longrightarrow>
        Value E key c =
          (length (heap c),
           c\<lparr>heap := heap c @ [Live p], cached := cached c @ [(key, length (heap c))]\<rparr>)
        \<and> map_of (cached (snd (Value E key c))) key = Some (fst (Value E key c))
        \<and> Load_at (fst (Value E key c)) (snd (Value E key c)) = p)
   \<and> (map_of (cached c) key = None \<and> r_Value E (reader c) key = None \<longrightarrow>
        Value E key c = (length (heap c), c\<lparr>heap := heap c @ [ErrValue ErrNotFound]\<rparr>)
        \<and> cached (snd (Value E key c)) = cached c
        \<and> Load_at (fst (Value E key c)) (snd (Value E key c)) = PNil)
   \<and> (map_of (cached c) key = None \<and> a \<in> {DoLoad, DoWatchIter w nx}
        \<and> r_Value E (reader (step E a c)) key = None \<longrightarrow>
        heap (snd (Value E key (step E a c))) ! fst (Value E key (step E a c)) = ErrValue ErrNotFound
        \<and> Load_at (fst (Value E key (step E a c))) (snd (Value E key (step E a c))) = PNil
        \<and> cached (snd (Value E key (step E a c))) = cached c)"
proof (intro conjI impI)
  assume "map_of (cached c) key = Some v"
  then show "Value E key c = (v, c)" by (rule Value_cached)
next
  assume h: "map_of (cached c) key = None \<and> r_Value E (reader c) key = Some p"
  then have v: "Value E key c =
      (length (heap c), c\<lparr>heap := heap c @ [Live p], cached := cached c @ [(key, length (heap c))]\<rparr>)"
    by (simp add: Value_hit)
  show "Value E key c =
      (length (heap c), c\<lparr>heap := heap c @ [Live p], cached := cached c @ [(key, length (heap c))]\<rparr>)"
    by (rule v)
  show "map_of (cached (snd (Value E key c))) key = Some (fst (Value E key c))"
    using h by (simp add: v map_add_Some_iff)
  show "Load_at (fst (Value E key c)) (snd (Value E key c)) = p"
    by (simp add: v Load_at_def)
next
  assume h: "map_of (cached c) key = None \<and> r_Value E (reader c) key = None"
  then have v: "Value E key c = (length (heap c), c\<lparr>heap := heap c @ [ErrValue ErrNotFound]\<rparr>)"
    by (simp add: Value_miss)
  show "Value E key c = (length (heap c), c\<lparr>heap := heap c @ [ErrValue ErrNotFound]\<rparr>)"
    by (rule v)
  show "cached (snd (Value E key c)) = cached c" by (simp add: v)
  show "Load_at (fst (Value E key c)) (snd (Value E key c)) = PNil"
    by (simp add: v Load_at_def)
next
  assume h: "map_of (cached c) key = None \<and> a \<in> {DoLoad, DoWatchIter w nx}
        \<and> r_Value E (reader (step E a c)) key = None"
  let ?c = "step E a c"
  from h have cc: "cached ?c = cached c" by auto
  with h have v: "Value E key ?c = (length (heap ?c), ?c\<lparr>heap := heap ?c @ [ErrValue ErrNotFound]\<rparr>)"
    by (simp add: Value_miss)
  show "heap (snd (Value E key ?c)) ! fst (Value E key ?c) = ErrValue ErrNotFound"
    by (simp add: v)
  show "Load_at (fst (Value E key ?c)) (snd (Value E key ?c)) = PNil"
    by (simp add: v Load_at_def)
  show "cached (snd (Value E key ?c)) = cached c"
    using cc by (simp add: v)
qed

lemma Value_observers [simp]: "observers (snd (Value E key c)) = observers c"
proof (cases "map_of (cached c) key")
  case None
  then show ?thesis
    by (cases "r_Value E (reader c) key") (simp_all add: Value_hit Value_miss)
next
  case (Some v)
  then show ?thesis by (simp add: Value_cached)
qed

text \<open>
  Claim C6. \<^verbatim>\<open>Watch(key, o)\<close> returns \<^verbatim>\<open>ErrNotFound\<close> and leaves the observers as they
  were exactly when \<^verbatim>\<open>Value(key).Load()\<close> is nil; otherwise it returns nil and \<open>o\<close> is
  the callback of \<open>key\<close>, whatever was registered for \<open>key\<close> before; the callbacks of
  the other keys are untouched. In both cases the state is the one \<^verbatim>\<open>Value(key)\<close> leaves.
\<close>

theorem Watch_registers_iff_loaded:
  "fst (Watch E key ob c) =
     (if Load_at (fst (Value E key c)) (snd (Value E key c)) = PNil then Some ErrNotFound else None)
   \<and> observers (snd (Watch E key ob c)) =
     (if Load_at (fst (Value E key c)) (snd (Value E key c)) = PNil then observers c
      else (observers c)(key \<mapsto> ob))
   \<and> snd (Watch E key ob c) =
     (if Load_at (fst (Value E key c)) (snd (Value E key c)) = PNil then snd (Value E key c)
      else (snd (Value E key c))\<lparr>observers := (observers c)(key \<mapsto> ob)\<rparr>)"
  by (cases "Value E key c") (use Value_observers [of E key c] in \<open>simp add: Watch_def\<close>)

subsection \<open>Scan\<close>

lemma unmarshal_all_ok:
  "list_all (\<lambda>v. snd (unmarshalJSON E data v) = None) pre \<Longrightarrow>
   unmarshal_all E data i (pre @ rest) c =
     (fst (unmarshal_all E data (i + length pre) rest
             (emits (map (CallUnmarshal data) [i ..< i + length pre]) c)),
      map (\<lambda>v. fst (unmarshalJSON E data v)) pre
      @ fst (snd (unmarshal_all E data (i + length pre) rest
             (emits (map (CallUnmarshal data) [i ..< i + length pre]) c))),
      snd (snd (unmarshal_all E data (i + length pre) rest
             (emits (map (CallUnmarshal data) [i ..< i + length pre]) c))))"
proof (induction pre arbitrary: i c)
  case Nil
  then show ?case by simp
next
  case (Cons v pre)
  obtain v' where v: "unmarshalJSON E data v = (v', None)"
    using Cons.prems by (cases "unmarshalJSON E data v") auto
  have u: "[i ..< i + length (v # pre)] = i # [Suc i ..< Suc i + length pre]"
    by (simp add: upt_rec)
  have e: "emits (map (CallUnmarshal data) [Suc i ..< Suc i + length pre]) (emit (CallUnmarshal data i) c)
      = emits (map (CallUnmarshal data) [i ..< i + length (v # pre)]) c"
    unfolding u by (simp add: emits_emit del: upt_Suc)
  from Cons.prems have "list_all (\<lambda>v. snd (unmarshalJSON E data v) = None) pre" by simp
  from Cons.IH [OF this, of "Suc i" "emit (CallUnmarshal data i) c"]
  have "unmarshal_all E data (Suc i) (pre @ rest) (emit (CallUnmarshal data i) c) =
     (fst (unmarshal_all E data (i + length (v # pre)) rest
             (emits (map (CallUnmarshal data) [i ..< i + length (v # pre)]) c)),
      map (\<lambda>v. fst (unmarshalJSON E data v)) pre
      @ fst (snd (unmarshal_all E data (i + length (v # pre)) rest
             (emits (map (CallUnmarshal data) [i ..< i + length (v # pre)]) c))),
      snd (snd (unmarshal_all E data (i + length (v # pre)) rest
             (emits (map (CallUnmarshal data) [i ..< i + length (v # pre)]) c))))"
    unfolding e by simp
  then show ?case
    using v by (simp add: Let_def del: upt_Suc)
qed

lemma unmarshal_all_failed:
  "unmarshalJSON E data v = (v', Some err) \<Longrightarrow>
   unmarshal_all E data i (v # rest) c = (Some err, v' # rest, emits [CallUnmarshal data i] c)"
  by (simp add: emit_as_emits)

text \<open>
  Claim C8. \<^verbatim>\<open>Scan\<close> calls \<^verbatim>\<open>Reader.Source\<close> once. If that fails, the error is
  returned and no target has been handed to the decoder. Otherwise the one snapshot
  \<open>data\<close> is decoded into every target, in argument order; when every decode succeeds
  \<^verbatim>\<open>Scan\<close> returns nil and each target is what decoding \<open>data\<close> into it gives. No
  format of a source enters: the snapshot is the only input of the decoder.
\<close>

theorem Scan_one_snapshot_for_all_targets:
  "(r_Source E (reader c) = Inl err \<longrightarrow>
      Scan E vs c = (Some err, vs, emits [CallReaderSource] c))
   \<and> (r_Source E (reader c) = Inr data
       \<and> list_all (\<lambda>v. snd (unmarshalJSON E data v) = None) vs \<longrightarrow>
      Scan E vs c =
        (None, map (\<lambda>v. fst (unmarshalJSON E data v)) vs,
         emits (CallReaderSource # map (CallUnmarshal data) [0 ..< length vs]) c))"
proof (intro conjI impI)
  assume "r_Source E (reader c) = Inl err"
  then show "Scan E vs c = (Some err, vs, emits [CallReaderSource] c)"
    by (simp add: Scan_def emit_as_emits)
next
  assume h: "r_Source E (reader c) = Inr data
       \<and> list_all (\<lambda>v. snd (unmarshalJSON E data v) = None) vs"
  then have "unmarshal_all E data 0 (vs @ []) (emit CallReaderSource c) =
     (None, map (\<lambda>v. fst (unmarshalJSON E data v)) vs,
      emits (map (CallUnmarshal data) [0 ..< 0 + length vs]) (emit CallReaderSource c))"
    by (subst unmarshal_all_ok) simp_all
  with h show "Scan E vs c =
        (None, map (\<lambda>v. fst (unmarshalJSON E data v)) vs,
         emits (CallReaderSource # map (CallUnmarshal data) [0 ..< length vs]) c)"
    by (simp add: Scan_def emits_emit)
qed

text \<open>
  Claim C10, as amended. \<^verbatim>\<open>Scan\<close> is not atomic across its targets: if the decode
  into the target at position \<open>length pre\<close> fails, \<^verbatim>\<open>Scan\<close> returns that error with
  the targets before it overwritten from the snapshot and the targets after it
  unmodified; the target at that position is left as the failed decode left it, \<open>v'\<close>.
\<close>

theorem Scan_stops_at_first_decode_failure:
  "r_Source E (reader c) = Inr data \<Longrightarrow>
   list_all (\<lambda>v. snd (unmarshalJSON E data v) = None) pre \<Longrightarrow>
   unmarshalJSON E data v = (v', Some err) \<Longrightarrow>
   Scan E (pre @ v # post) c =
     (Some err, map (\<lambda>v. fst (unmarshalJSON E data v)) pre @ v' # post,
      emits (CallReaderSource # map (CallUnmarshal data) [0 ..< Suc (length pre)]) c)"
proof -
  assume src: "r_Source E (reader c) = Inr data"
    and pre: "list_all (\<lambda>v. snd (unmarshalJSON E data v) = None) pre"
    and v: "unmarshalJSON E data v = (v', Some err)"
  have "unmarshal_all E data 0 (pre @ v # post) (emit CallReaderSource c) =
     (Some err, map (\<lambda>v. fst (unmarshalJSON E data v)) pre @ v' # post,
      emits [CallUnmarshal data (length pre)]
        (emits (map (CallUnmarshal data) [0 ..< length pre]) (emit CallReaderSource c)))"
    using unmarshal_all_ok [OF pre, of 0 "v # post" "emit CallReaderSource c"]
      unmarshal_all_failed [OF v]
    by (simp del: unmarshal_all.simps)
  with src show ?thesis
    by (simp add: Scan_def emits_emit del: unmarshal_all.simps)
qed

subsection \<open>The error policy of the loop\<close>

lemma watch_iter_control:
  "fst (watch_iter E w nx c) = (if is_cancel nx then Return else Continue)"
  by (rule watch_iter_cases [where nx = nx and E = E and c = c];
      simp add: is_cancel_def watch_iter_cancel watch_iter_error watch_iter_merge_failed
        watch_iter_resolve_failed watch_iter_scan)

lemma watch_outcome:
  "fst (watch E w nxs c) = (if list_ex is_cancel nxs then Returned else Blocked)"
proof (induction nxs arbitrary: c)
  case Nil
  show ?case by simp
next
  case (Cons nx nxs)
  obtain ctl c1 where i: "watch_iter E w nx c = (ctl, c1)" by (cases "watch_iter E w nx c")
  with watch_iter_control [of E w nx c] have "ctl = (if is_cancel nx then Return else Continue)"
    by simp
  with i Cons.IH [of c1] show ?case by simp
qed

text \<open>
  Claim C4. One iteration of the reconciliation loop: a cancellation error of
  \<^verbatim>\<open>Next\<close> ends the loop at once, with a log line and neither sleep nor merge, and the
  later \<^verbatim>\<open>Next\<close> results are never asked for; any other error of \<^verbatim>\<open>Next\<close> gives a
  sleep of one second (in nanoseconds) and a log line, no merge, and the loop goes on; a
  failing \<^verbatim>\<open>Merge\<close> is logged and neither \<^verbatim>\<open>Resolve\<close> nor the cache scan happens;
  a failing \<^verbatim>\<open>Resolve\<close> is logged and the cache scan does not happen, so cache, heap
  and observers are as before. The loop has no error result: it returns exactly when
  some \<^verbatim>\<open>Next\<close> result is a cancellation, and otherwise waits for the next one.
\<close>

theorem watch_iteration_error_policy:
  "(errors_Is err ContextCanceled \<longrightarrow>
      watch_iter E w (Inl err) c =
        (Return, emits [CallNext w, Infof ''watcher's ctx cancel : %v'' err] c)
      \<and> watch E w (Inl err # rest) c =
        (Returned, emits [CallNext w, Infof ''watcher's ctx cancel : %v'' err] c))
   \<and> (\<not> errors_Is err ContextCanceled \<longrightarrow>
      watch_iter E w (Inl err) c =
        (Continue,
         emits [CallNext w, Sleep 1000000000, Errorf ''failed to watch next config: %v'' err] c))
   \<and> (r_Merge E kvs (reader c) = (rm, Some err) \<longrightarrow>
      watch_iter E w (Inr kvs) c =
        (Continue,
         emits [CallNext w, CallMerge kvs, Errorf ''failed to merge next config: %v'' err]
           (c\<lparr>reader := rm\<rparr>)))
   \<and> (r_Merge E kvs (reader c) = (rm, None) \<and> r_Resolve E rm = (rr, Some err) \<longrightarrow>
      watch_iter E w (Inr kvs) c =
        (Continue,
         emits [CallNext w, CallMerge kvs, CallResolve,
                Errorf ''failed to resolve next config: %v'' err]
           (c\<lparr>reader := rr\<rparr>)))
   \<and> fst (watch E w nxs c) = (if list_ex is_cancel nxs then Returned else Blocked)"
proof (intro conjI impI)
  assume a: "errors_Is err ContextCanceled"
  then show i: "watch_iter E w (Inl err) c =
        (Return, emits [CallNext w, Infof ''watcher's ctx cancel : %v'' err] c)"
    by (rule watch_iter_cancel)
  show "watch E w (Inl err # rest) c =
        (Returned, emits [CallNext w, Infof ''watcher's ctx cancel : %v'' err] c)"
    by (simp add: i)
next
  assume "\<not> errors_Is err ContextCanceled"
  then show "watch_iter E w (Inl err) c =
        (Continue,
         emits [CallNext w, Sleep 1000000000, Errorf ''failed to watch next config: %v'' err] c)"
    by (simp add: watch_iter_error time_Second_def)
next
  assume "r_Merge E kvs (reader c) = (rm, Some err)"
  then show "watch_iter E w (Inr kvs) c =
        (Continue,
         emits [CallNext w, CallMerge kvs, Errorf ''failed to merge next config: %v'' err]
           (c\<lparr>reader := rm\<rparr>))"
    by (rule watch_iter_merge_failed)
next
  assume "r_Merge E kvs (reader c) = (rm, None) \<and> r_Resolve E rm = (rr, Some err)"
  then show "watch_iter E w (Inr kvs) c =
        (Continue,
         emits [CallNext w, CallMerge kvs, CallResolve,
                Errorf ''failed to resolve next config: %v'' err]
           (c\<lparr>reader := rr\<rparr>))"
    by (simp add: watch_iter_resolve_failed)
next
  show "fst (watch E w nxs c) = (if list_ex is_cancel nxs then Returned else Blocked)"
    by (rule watch_outcome)
qed

subsection \<open>The cache scan\<close>

lemma range_body_miss:
  "r_Value E (reader c) k = None \<Longrightarrow> range_body E k v c = c"
  by (simp add: range_body_def reader_Value_miss)

lemma range_body_same:
  "r_Value E (reader c) k = Some p \<Longrightarrow> v < length (heap c) \<Longrightarrow>
   \<not> comparable_change (Some p) (Load_at v c) \<Longrightarrow>
   range_body E k v c = c\<lparr>heap := heap c @ [Live p]\<rparr>"
  by (auto simp add: range_body_def reader_Value_hit comparable_change_def Load_at_def nth_append)

lemma range_body_changed:
  "r_Value E (reader c) k = Some p \<Longrightarrow> v < length (heap c) \<Longrightarrow>
   comparable_change (Some p) (Load_at v c) \<Longrightarrow>
   range_body E k v c =
     emits (CallStore v p #
            (case observers c k of Some ob \<Rightarrow> [CallObserver ob k v] | None \<Rightarrow> []))
       (c\<lparr>heap := (heap c)[v := val_Store p (heap c ! v)] @ [Live p]\<rparr>)"
  by (cases "observers c k")
     (auto simp add: range_body_def reader_Value_hit comparable_change_def Load_at_def nth_append
        Store_at_def emit_def emits_def list_update_append)

lemma range_body_cases:
  assumes "v < length (heap c)"
  obtains (miss) "r_Value E (reader c) k = None" "range_body E k v c = c"
  | (same) p where "r_Value E (reader c) k = Some p"
      "\<not> comparable_change (Some p) (Load_at v c)"
      "range_body E k v c = c\<lparr>heap := heap c @ [Live p]\<rparr>"
  | (changed) p where "r_Value E (reader c) k = Some p"
      "comparable_change (Some p) (Load_at v c)"
      "range_body E k v c =
         emits (CallStore v p #
                (case observers c k of Some ob \<Rightarrow> [CallObserver ob k v] | None \<Rightarrow> []))
           (c\<lparr>heap := (heap c)[v := val_Store p (heap c ! v)] @ [Live p]\<rparr>)"
proof (cases "r_Value E (reader c) k")
  case None
  then show ?thesis using miss range_body_miss by blast
next
  case (Some p)
  show ?thesis
  proof (cases "comparable_change (Some p) (Load_at v c)")
    case True
    with Some assms show ?thesis using changed range_body_changed by blast
  next
    case False
    with Some assms show ?thesis using same range_body_same by blast
  qed
qed

lemma range_body_trace:
  "v < length (heap c) \<Longrightarrow> trace (range_body E k v c) = trace c @ entry_events E c (k, v)"
  by (rule range_body_cases [where E = E and k = k and v = v and c = c])
     (simp_all add: entry_events_def split: option.splits)

lemma range_body_cell:
  "v < length (heap c) \<Longrightarrow> heap (range_body E k v c) ! v = entry_cell E c (k, v)"
  by (rule range_body_cases [where E = E and k = k and v = v and c = c])
     (simp_all add: entry_cell_def nth_append)

lemma range_body_length:
  "v < length (heap c) \<Longrightarrow> length (heap c) \<le> length (heap (range_body E k v c))"
  by (rule range_body_cases [where E = E and k = k and v = v and c = c]) simp_all

lemma range_body_other:
  "v < length (heap c) \<Longrightarrow> u < length (heap c) \<Longrightarrow> u \<noteq> v \<Longrightarrow>
   heap (range_body E k v c) ! u = heap c ! u"
  by (rule range_body_cases [where E = E and k = k and v = v and c = c])
     (simp_all add: nth_append)


lemma entry_events_cong:
  "reader c' = reader c \<Longrightarrow> observers c' = observers c \<Longrightarrow> heap c' ! snd e = heap c ! snd e \<Longrightarrow>
   entry_events E c' e = entry_events E c e"
  by (simp add: entry_events_def Load_at_def split: option.splits)

lemma entry_cell_cong:
  "reader c' = reader c \<Longrightarrow> heap c' ! snd e = heap c ! snd e \<Longrightarrow>
   entry_cell E c' e = entry_cell E c e"
  by (simp add: entry_cell_def Load_at_def split: option.splits)

lemma cached_Range_length:
  "list_all (\<lambda>e. snd e < length (heap c)) es \<Longrightarrow>
   length (heap c) \<le> length (heap (cached_Range E es c))"
proof (induction es arbitrary: c)
  case Nil
  show ?case by simp
next
  case (Cons e es)
  obtain k v where e: "e = (k, v)" by (cases e)
  with Cons.prems have v: "v < length (heap c)" by simp
  from range_body_length [OF v, of E k] Cons.prems
  have "list_all (\<lambda>e. snd e < length (heap (range_body E k v c))) es"
    by (auto simp: list_all_iff)
  from Cons.IH [OF this] range_body_length [OF v, of E k] show ?case
    by (simp add: e)
qed

lemma cached_Range_other:
  "list_all (\<lambda>e. snd e < length (heap c)) es \<Longrightarrow> u < length (heap c) \<Longrightarrow>
   u \<notin> snd ` set es \<Longrightarrow> heap (cached_Range E es c) ! u = heap c ! u"
proof (induction es arbitrary: c)
  case Nil
  show ?case by simp
next
  case (Cons e es)
  obtain k v where e: "e = (k, v)" by (cases e)
  with Cons.prems have v: "v < length (heap c)" and uv: "u \<noteq> v" by auto
  let ?c1 = "range_body E k v c"
  from range_body_length [OF v, of E k] Cons.prems
  have "list_all (\<lambda>e. snd e < length (heap ?c1)) es" "u < length (heap ?c1)"
    by (auto simp: list_all_iff)
  from Cons.IH [OF this] Cons.prems(3)
  have "heap (cached_Range E es ?c1) ! u = heap ?c1 ! u" by simp
  with range_body_other [OF v Cons.prems(2) uv, of E k] show ?case
    by (simp add: e)
qed

lemma cached_Range_trace:
  "list_all (\<lambda>e. snd e < length (heap c)) es \<Longrightarrow> distinct (map snd es) \<Longrightarrow>
   trace (cached_Range E es c) = trace c @ concat (map (entry_events E c) es)"
proof (induction es arbitrary: c)
  case Nil
  show ?case by simp
next
  case (Cons e es)
  obtain k v where e: "e = (k, v)" by (cases e)
  with Cons.prems have v: "v < length (heap c)" by simp
  let ?c1 = "range_body E k v c"
  from range_body_length [OF v, of E k] Cons.prems
  have l: "list_all (\<lambda>e. snd e < length (heap ?c1)) es"
    by (auto simp: list_all_iff)
  have "entry_events E ?c1 x = entry_events E c x" if "x \<in> set es" for x
  proof (rule entry_events_cong)
    from that Cons.prems e have "snd x < length (heap c)" "snd x \<noteq> v"
      by (auto simp: list_all_iff)
    then show "heap ?c1 ! snd x = heap c ! snd x"
      by (simp add: range_body_other [OF v])
  qed simp_all
  then have m: "map (entry_events E ?c1) es = map (entry_events E c) es" by simp
  from Cons.IH [OF l] Cons.prems(2)
  have "trace (cached_Range E es ?c1) = trace ?c1 @ concat (map (entry_events E ?c1) es)"
    by simp
  then show ?case
    by (simp add: e m range_body_trace [OF v])
qed

lemma cached_Range_cell:
  "list_all (\<lambda>e. snd e < length (heap c)) es \<Longrightarrow> distinct (map snd es) \<Longrightarrow> e \<in> set es \<Longrightarrow>
   heap (cached_Range E es c) ! snd e = entry_cell E c e"
proof (induction es arbitrary: c)
  case Nil
  then show ?case by simp
next
  case (Cons x es)
  obtain k v where x: "x = (k, v)" by (cases x)
  with Cons.prems have v: "v < length (heap c)" by simp
  let ?c1 = "range_body E k v c"
  from range_body_length [OF v, of E k] Cons.prems
  have l: "list_all (\<lambda>e. snd e < length (heap ?c1)) es"
    by (auto simp: list_all_iff)
  show ?case
  proof (cases "e = x")
    case True
    from Cons.prems x have "v \<notin> snd ` set es" by auto
    from cached_Range_other [OF l _ this, of E] range_body_length [OF v, of E k] v
    have "heap (cached_Range E es ?c1) ! v = heap ?c1 ! v" by simp
    with True x show ?thesis by (simp add: range_body_cell [OF v])
  next
    case False
    with Cons.prems have m: "e \<in> set es" by simp
    with Cons.prems x have "snd e < length (heap c)" "snd e \<noteq> v"
      by (auto simp: list_all_iff)
    then have "heap ?c1 ! snd e = heap c ! snd e"
      by (simp add: range_body_other [OF v])
    then have "entry_cell E ?c1 e = entry_cell E c e"
      by (intro entry_cell_cong) simp_all
    with Cons.IH [OF l _ m] Cons.prems(2) show ?thesis
      by (simp add: x)
  qed
qed

lemma concat_map_single:
  "x \<in> set xs \<Longrightarrow> distinct (map h xs) \<Longrightarrow> (\<And>y. y \<in> set xs \<Longrightarrow> h y \<noteq> h x \<Longrightarrow> g y = []) \<Longrightarrow>
   concat (map g xs) = g x"
proof (induction xs)
  case Nil
  then show ?case by simp
next
  case (Cons y ys)
  show ?case
  proof (cases "y = x")
    case True
    have "g z = []" if "z \<in> set ys" for z
    proof -
      from Cons.prems(2) have "h y \<notin> h ` set ys" by simp
      moreover from that have "h z \<in> h ` set ys" by (rule imageI)
      ultimately have "h z \<noteq> h x" unfolding True by metis
      with that Cons.prems(3) show ?thesis by simp
    qed
    then have "concat (map g ys) = []" by simp
    with True show ?thesis by simp
  next
    case False
    with Cons.prems have x: "x \<in> set ys" by simp
    then have "h x \<in> h ` set ys" by (rule imageI)
    moreover from Cons.prems(2) have "h y \<notin> h ` set ys" by simp
    ultimately have "h y \<noteq> h x" by metis
    with Cons.prems(3) have "g y = []" by simp
    moreover from Cons.IH [OF x] Cons.prems have "concat (map g ys) = g x" by simp
    ultimately show ?thesis by simp
  qed
qed

lemma stores_of_entry:
  "filter (is_store_to v) (entry_events E c e) =
     (if snd e = v \<and> comparable_change (r_Value E (reader c) (fst e)) (Load_at v c)
      then [CallStore v (the (r_Value E (reader c) (fst e)))] else [])"
  by (auto simp: entry_events_def comparable_change_def split: option.splits)

lemma observer_calls_of_entry:
  "filter (is_observer_call_for k) (entry_events E c e) =
     (if fst e = k \<and> comparable_change (r_Value E (reader c) k) (Load_at (snd e) c)
      then (case observers c k of Some ob \<Rightarrow> [CallObserver ob k (snd e)] | None \<Rightarrow> [])
      else [])"
  by (auto simp: entry_events_def comparable_change_def split: option.splits)

lemma Store_then_Load:
  "comparable_change (Some p) (val_Load cell) \<Longrightarrow> val_Store p cell = Live p"
  by (cases cell; cases p) (simp_all add: comparable_change_def reflect_DeepEqual_def)

lemma cached_Range_stores:
  assumes "cache_wf c" "(k, v) \<in> set (cached c)"
  shows "filter (is_store_to v) (concat (map (entry_events E c) (cached c))) =
     (if comparable_change (r_Value E (reader c) k) (Load_at v c)
      then [CallStore v (the (r_Value E (reader c) k))] else [])"
proof -
  from assms(1) have wf: "list_all (\<lambda>e. snd e < length (heap c)) (cached c)"
      "distinct (map snd (cached c))"
    by (simp_all add: cache_wf_def)
  have "filter (is_store_to v) (concat (map (entry_events E c) (cached c)))
      = concat (map (\<lambda>e. filter (is_store_to v) (entry_events E c e)) (cached c))"
    by (simp add: filter_concat comp_def)
  also have "\<dots> = filter (is_store_to v) (entry_events E c (k, v))"
    by (rule concat_map_single [where h = snd, OF assms(2) wf(2)]) (simp add: stores_of_entry)
  finally show ?thesis by (simp add: stores_of_entry)
qed

lemma cached_Range_observer_calls:
  assumes "cache_wf c" "(k, v) \<in> set (cached c)"
  shows "filter (is_observer_call_for k)
      (concat (map (entry_events E c) (cached c))) =
     (if comparable_change (r_Value E (reader c) k) (Load_at v c)
      then (case observers c k of Some ob \<Rightarrow> [CallObserver ob k v] | None \<Rightarrow> [])
      else [])"
proof -
  from assms(1) have wf: "list_all (\<lambda>e. snd e < length (heap c)) (cached c)"
      "distinct (map snd (cached c))" "distinct (map fst (cached c))"
    by (simp_all add: cache_wf_def)
  have "filter (is_observer_call_for k)
      (concat (map (entry_events E c) (cached c)))
      = concat (map (\<lambda>e. filter (is_observer_call_for k) (entry_events E c e)) (cached c))"
    by (simp add: filter_concat comp_def)
  also have "\<dots> = filter (is_observer_call_for k) (entry_events E c (k, v))"
    by (rule concat_map_single [where h = fst, OF assms(2) wf(3)])
       (simp add: observer_calls_of_entry)
  finally show ?thesis by (simp add: observer_calls_of_entry split: option.splits)
qed

lemma cached_Range_payload:
  assumes "cache_wf c" "(k, v) \<in> set (cached c)"
  shows "heap (cached_Range E (cached c) c) ! v =
     (if comparable_change (r_Value E (reader c) k) (Load_at v c)
      then Live (the (r_Value E (reader c) k)) else heap c ! v)"
proof -
  from assms(1) have wf: "list_all (\<lambda>e. snd e < length (heap c)) (cached c)"
      "distinct (map snd (cached c))"
    by (simp_all add: cache_wf_def)
  from cached_Range_cell [OF wf assms(2), of E]
  show ?thesis
    by (auto simp: entry_cell_def comparable_change_def Load_at_def
        intro: Store_then_Load split: option.splits)
qed


lemma cache_wf_cong:
  "cached c' = cached c \<Longrightarrow> length (heap c) \<le> length (heap c') \<Longrightarrow> cache_wf c \<Longrightarrow> cache_wf c'"
  by (auto simp: cache_wf_def list_all_iff)

text \<open>
  Claim C1. In an iteration of the loop whose merge and resolve succeed, for every entry
  \<open>(k, v)\<close> of the cache: \<^verbatim>\<open>Store\<close> is called on \<open>v\<close> (once, with the fresh payload)
  if and only if the Reader reports \<open>k\<close> present with a payload of the type of the
  cached payload and not deeply equal to it; the observer registered for \<open>k\<close>, if there
  is one, is invoked (once, with \<open>k\<close> and \<open>v\<close>) under exactly the same condition; the
  object \<open>v\<close> then holds the fresh payload, and otherwise is as before. In particular a
  fresh payload of another type leaves the object untouched and invokes no observer for
  \<open>k\<close>. The cache itself is not changed.
\<close>

theorem watch_notifies_iff_comparable_change:
  assumes "cache_wf c" and "(k, v) \<in> set (cached c)"
    and "r_Merge E kvs (reader c) = (rm, None)" and "r_Resolve E rm = (rr, None)"
  shows
    "filter (is_store_to v) (drop (length (trace c)) (trace (snd (watch_iter E w (Inr kvs) c)))) =
       (if comparable_change (r_Value E rr k) (Load_at v c)
        then [CallStore v (the (r_Value E rr k))] else [])
     \<and> filter (is_observer_call_for k)
         (drop (length (trace c)) (trace (snd (watch_iter E w (Inr kvs) c)))) =
       (if comparable_change (r_Value E rr k) (Load_at v c)
        then (case observers c k of Some ob \<Rightarrow> [CallObserver ob k v] | None \<Rightarrow> [])
        else [])
     \<and> heap (snd (watch_iter E w (Inr kvs) c)) ! v =
       (if comparable_change (r_Value E rr k) (Load_at v c)
        then Live (the (r_Value E rr k)) else heap c ! v)
     \<and> cached (snd (watch_iter E w (Inr kvs) c)) = cached c
     \<and> (\<forall>p. r_Value E rr k = Some p \<and> reflect_TypeOf p \<noteq> reflect_TypeOf (Load_at v c) \<longrightarrow>
          heap (snd (watch_iter E w (Inr kvs) c)) ! v = heap c ! v
          \<and> filter (is_observer_call_for k)
              (drop (length (trace c)) (trace (snd (watch_iter E w (Inr kvs) c)))) = [])"
proof -
  let ?c0 = "emits [CallNext w, CallMerge kvs, CallResolve] (c\<lparr>reader := rr\<rparr>)"
  let ?c' = "snd (watch_iter E w (Inr kvs) c)"
  let ?evs = "drop (length (trace c)) (trace ?c')"
  have c': "?c' = cached_Range E (cached ?c0) ?c0"
    using watch_iter_scan [OF assms(3,4), of w] by simp
  have wf0: "cache_wf ?c0" using assms(1) by (rule cache_wf_cong [rotated 2]) simp_all
  then have wf: "list_all (\<lambda>e. snd e < length (heap ?c0)) (cached ?c0)"
      "distinct (map snd (cached ?c0))"
    by (simp_all add: cache_wf_def)
  have in0: "(k, v) \<in> set (cached ?c0)" using assms(2) by simp
  have ld: "Load_at v ?c0 = Load_at v c" by (simp add: Load_at_def)
  have evs: "?evs = [CallNext w, CallMerge kvs, CallResolve]
      @ concat (map (entry_events E ?c0) (cached ?c0))"
    unfolding c' cached_Range_trace [OF wf] by simp
  have st: "filter (is_store_to v) ?evs =
       (if comparable_change (r_Value E rr k) (Load_at v c)
        then [CallStore v (the (r_Value E rr k))] else [])"
    unfolding evs using cached_Range_stores [OF wf0 in0, of E] by (simp add: ld)
  have ob: "filter (is_observer_call_for k) ?evs =
       (if comparable_change (r_Value E rr k) (Load_at v c)
        then (case observers c k of Some ob \<Rightarrow> [CallObserver ob k v] | None \<Rightarrow> [])
        else [])"
    unfolding evs using cached_Range_observer_calls [OF wf0 in0, of E] by (simp add: ld)
  have hp: "heap ?c' ! v =
       (if comparable_change (r_Value E rr k) (Load_at v c)
        then Live (the (r_Value E rr k)) else heap c ! v)"
    unfolding c' using cached_Range_payload [OF wf0 in0, of E] by (simp add: ld)
  have nc: "\<not> comparable_change (r_Value E rr k) (Load_at v c)"
    if "r_Value E rr k = Some p \<and> reflect_TypeOf p \<noteq> reflect_TypeOf (Load_at v c)" for p
    using that by (simp add: comparable_change_def)
  show ?thesis
  proof (intro conjI allI impI)
    show "filter (is_store_to v) ?evs =
       (if comparable_change (r_Value E rr k) (Load_at v c)
        then [CallStore v (the (r_Value E rr k))] else [])"
      by (rule st)
    show "filter (is_observer_call_for k) ?evs =
       (if comparable_change (r_Value E rr k) (Load_at v c)
        then (case observers c k of Some ob \<Rightarrow> [CallObserver ob k v] | None \<Rightarrow> [])
        else [])"
      by (rule ob)
    show "heap ?c' ! v =
       (if comparable_change (r_Value E rr k) (Load_at v c)
        then Live (the (r_Value E rr k)) else heap c ! v)"
      by (rule hp)
    show "cached ?c' = cached c" by simp
  next
    fix p
    assume a: "r_Value E rr k = Some p \<and> reflect_TypeOf p \<noteq> reflect_TypeOf (Load_at v c)"
    from nc [OF a] hp show "heap ?c' ! v = heap c ! v" by simp
    from nc [OF a] ob show "filter (is_observer_call_for k) ?evs = []" by simp
  qed
qed

subsection \<open>Invariants of the reachable states\<close>

lemma stop_all_frame_all:
  "sources (snd (stop_all ws c)) = sources c \<and> reader (snd (stop_all ws c)) = reader c
   \<and> cached (snd (stop_all ws c)) = cached c \<and> observers (snd (stop_all ws c)) = observers c
   \<and> watchers (snd (stop_all ws c)) = watchers c \<and> heap (snd (stop_all ws c)) = heap c"
  by (induction ws arbitrary: c) (simp_all add: Let_def split: option.splits)

lemma Close_frame [simp]:
  "sources (snd (Close c)) = sources c" "reader (snd (Close c)) = reader c"
  "cached (snd (Close c)) = cached c" "observers (snd (Close c)) = observers c"
  "watchers (snd (Close c)) = watchers c" "heap (snd (Close c)) = heap c"
  using stop_all_frame_all [of "watchers c" c] by (simp_all add: Close_def)

lemma stop_all_quiet:
  "list_all Q (trace c) \<Longrightarrow> (\<And>e. \<not> is_observer_call e \<Longrightarrow> Q e) \<Longrightarrow>
   list_all Q (trace (snd (stop_all ws c)))"
  by (induction ws arbitrary: c) (simp_all add: Let_def split: option.splits)

lemma unmarshal_all_state:
  "snd (snd (unmarshal_all E data i (v # vs) c)) =
     (case snd (unmarshalJSON E data v) of
        Some err \<Rightarrow> emit (CallUnmarshal data i) c
      | None \<Rightarrow> snd (snd (unmarshal_all E data (Suc i) vs (emit (CallUnmarshal data i) c))))"
  by (simp add: Let_def split: prod.splits option.splits)

lemma unmarshal_all_frame_all:
  "sources (snd (snd (unmarshal_all E data i vs c))) = sources c
   \<and> reader (snd (snd (unmarshal_all E data i vs c))) = reader c
   \<and> cached (snd (snd (unmarshal_all E data i vs c))) = cached c
   \<and> observers (snd (snd (unmarshal_all E data i vs c))) = observers c
   \<and> watchers (snd (snd (unmarshal_all E data i vs c))) = watchers c
   \<and> heap (snd (snd (unmarshal_all E data i vs c))) = heap c"
proof (induction vs arbitrary: i c)
  case Nil
  show ?case by simp
next
  case (Cons v vs)
  show ?case
    unfolding unmarshal_all_state
    by (cases "snd (unmarshalJSON E data v)") (simp_all add: Cons.IH)
qed

lemma unmarshal_all_quiet:
  "list_all Q (trace c) \<Longrightarrow> (\<And>e. \<not> is_observer_call e \<Longrightarrow> Q e) \<Longrightarrow>
   list_all Q (trace (snd (snd (unmarshal_all E data i vs c))))"
proof (induction vs arbitrary: i c)
  case Nil
  then show ?case by simp
next
  case (Cons v vs)
  from Cons.prems have "list_all Q (trace (emit (CallUnmarshal data i) c))" by simp
  with Cons.IH Cons.prems(2) show ?case
    unfolding unmarshal_all_state
    by (cases "snd (unmarshalJSON E data v)") simp_all
qed

lemma Scan_frame [simp]:
  "sources (snd (snd (Scan E vs c))) = sources c" "reader (snd (snd (Scan E vs c))) = reader c"
  "cached (snd (snd (Scan E vs c))) = cached c" "observers (snd (snd (Scan E vs c))) = observers c"
  "watchers (snd (snd (Scan E vs c))) = watchers c" "heap (snd (snd (Scan E vs c))) = heap c"
  by (cases "r_Source E (reader c)"; simp add: Scan_def unmarshal_all_frame_all)+

lemma Scan_quiet:
  "list_all Q (trace c) \<Longrightarrow> (\<And>e. \<not> is_observer_call e \<Longrightarrow> Q e) \<Longrightarrow>
   list_all Q (trace (snd (snd (Scan E vs c))))"
  by (cases "r_Source E (reader c)") (simp_all add: Scan_def unmarshal_all_quiet)

subsection \<open>The in-memory Reader\<close>

lemma demo_env_sel:
  "r_Merge demo_env kvs r =
     (if list_ex (\<lambda>v. kv_Format v \<noteq> ''json'') kvs
      then (r, Some (ErrOther ''unknown format''))
      else (foldl (\<lambda>r v. AList.update (kv_Key v) (demo_parse (kv_Value v)) r) r kvs, None))"
  "r_Resolve demo_env r =
     (if list_ex (\<lambda>e. snd e = PString ''${}'') r
      then (r, Some (ErrOther ''unresolved placeholder''))
      else (r, None))"
  "r_Value demo_env r k = map_of r k"
  "r_Source demo_env r =
     (if r = [] then Inl (ErrOther ''nothing loaded'')
      else Inr (concat (map (\<lambda>e. fst e @ '';'') r)))"
  "unmarshalJSON demo_env data t =
     ((fst t, take (fst t) data),
      if fst t < length data then Some (ErrOther ''target too small'') else None)"
  by (simp_all add: demo_env_def)

lemmas demo_simps =
  demo_env_sel demo_parse_def is_digit_def json_def New_def emits_def emit_def Load_at_def

theorem Value_cached_or_reader_or_not_found_witness:
  "Value demo_env ''level'' ((New [] [(''level'', PString ''info'')])\<lparr>cached := [(''level'', 0)], heap := [Live (PString ''info'')]\<rparr>)
     = (0, (New [] [(''level'', PString ''info'')])\<lparr>cached := [(''level'', 0)], heap := [Live (PString ''info'')]\<rparr>)
   \<and> Value demo_env ''level'' (New [] [(''level'', PString ''info'')])
     = (0, (New [] [(''level'', PString ''info'')])\<lparr>heap := [Live (PString ''info'')], cached := [(''level'', 0)]\<rparr>)
   \<and> Value demo_env ''missing'' (New [] [(''level'', PString ''info'')])
     = (0, (New [] [(''level'', PString ''info'')])\<lparr>heap := [ErrValue ErrNotFound]\<rparr>)
   \<and> Load_at (fst (Value demo_env ''missing'' (New [] [(''level'', PString ''info'')])))
        (snd (Value demo_env ''missing'' (New [] [(''level'', PString ''info'')]))) = PNil
   \<and> Load_at
        (fst (Value demo_env ''missing''
           (step demo_env (DoWatchIter 1 (Inr [json ''port'' ''8080''])) (New [] [(''level'', PString ''info'')]))))
        (snd (Value demo_env ''missing''
           (step demo_env (DoWatchIter 1 (Inr [json ''port'' ''8080''])) (New [] [(''level'', PString ''info'')]))))
      = PNil"
  using
    Value_cached_or_reader_or_not_found [where E = demo_env and key = "''level''" and v = 0
      and c = "(New [] [(''level'', PString ''info'')])\<lparr>cached := [(''level'', 0)], heap := [Live (PString ''info'')]\<rparr>"
      and p = PNil and a = DoClose and w = 0 and nx = "Inr []"]
    Value_cached_or_reader_or_not_found [where E = demo_env and key = "''level''" and v = 0
      and p = "PString ''info''" and c = "New [] [(''level'', PString ''info'')]"
      and a = DoClose and w = 0 and nx = "Inr []"]
    Value_cached_or_reader_or_not_found [where E = demo_env and key = "''missing''" and v = 0
      and c = "New [] [(''level'', PString ''info'')]" and p = PNil
      and a = "DoWatchIter 1 (Inr [json ''port'' ''8080''])" and w = 1
      and nx = "Inr [json ''port'' ''8080'']"]
  by (simp add: demo_simps watch_iter_def)

subsection \<open>What Value does to the cache\<close>

lemma Value_cases:
  obtains (cached) v where "map_of (cached c) key = Some v" "Value E key c = (v, c)"
  | (hit) p where "map_of (cached c) key = None" "r_Value E (reader c) key = Some p"
      "Value E key c =
         (length (heap c),
          c\<lparr>heap := heap c @ [Live p], cached := cached c @ [(key, length (heap c))]\<rparr>)"
  | (miss) "map_of (cached c) key = None" "r_Value E (reader c) key = None"
      "Value E key c = (length (heap c), c\<lparr>heap := heap c @ [ErrValue ErrNotFound]\<rparr>)"
proof (cases "map_of (cached c) key")
  case (Some v)
  then show ?thesis using cached Value_cached by blast
next
  case None
  show ?thesis
  proof (cases "r_Value E (reader c) key")
    case (Some p)
    with None show ?thesis using hit Value_hit by blast
  next
    case n: None
    with None show ?thesis using miss Value_miss by blast
  qed
qed

lemma Value_keeps_entries:
  "map_of (cached c) k = Some v \<Longrightarrow> map_of (cached (snd (Value E key c))) k = Some v"
  by (rule Value_cases [where E = E and key = key and c = c]) (auto simp: map_add_Some_iff)

lemma Value_trace [simp]: "trace (snd (Value E key c)) = trace c"
  by (rule Value_cases [where E = E and key = key and c = c]) simp_all

lemma Value_loaded_is_cached:
  "Load_at (fst (Value E key c)) (snd (Value E key c)) \<noteq> PNil \<Longrightarrow>
   map_of (cached (snd (Value E key c))) key = Some (fst (Value E key c))"
  by (rule Value_cases [where E = E and key = key and c = c])
     (auto simp: Load_at_def map_add_Some_iff)

lemma map_of_fresh_None:
  "map_of al k = None \<Longrightarrow> k \<notin> fst ` set al"
  by (simp add: map_of_eq_None_iff)

lemma Value_cache_wf:
  "cache_wf c \<Longrightarrow> cache_wf (snd (Value E key c))"
proof (rule Value_cases [where E = E and key = key and c = c])
  fix v
  assume "cache_wf c" "Value E key c = (v, c)"
  then show ?thesis by simp
next
  fix p
  assume wf: "cache_wf c" and n: "map_of (cached c) key = None"
    and v: "Value E key c =
         (length (heap c),
          c\<lparr>heap := heap c @ [Live p], cached := cached c @ [(key, length (heap c))]\<rparr>)"
  from n have k: "key \<notin> fst ` set (cached c)" by (rule map_of_fresh_None)
  from wf have b: "\<forall>e\<in>set (cached c). snd e < length (heap c)"
    by (simp add: cache_wf_def list_all_iff)
  then have a: "length (heap c) \<notin> snd ` set (cached c)" by auto
  from wf k a b show ?thesis
    by (auto simp: v cache_wf_def list_all_iff)
next
  assume wf: "cache_wf c"
    and v: "Value E key c = (length (heap c), c\<lparr>heap := heap c @ [ErrValue ErrNotFound]\<rparr>)"
  from wf show ?thesis
    by (auto simp: v cache_wf_def list_all_iff)
qed

lemma Watch_state:
  "snd (Watch E key ob c) =
     (if Load_at (fst (Value E key c)) (snd (Value E key c)) = PNil then snd (Value E key c)
      else (snd (Value E key c))\<lparr>observers := (observers c)(key \<mapsto> ob)\<rparr>)"
  by (cases "Value E key c") (use Value_observers [of E key c] in \<open>simp add: Watch_def\<close>)

lemma Watch_frame [simp]:
  "cached (snd (Watch E key ob c)) = cached (snd (Value E key c))"
  "heap (snd (Watch E key ob c)) = heap (snd (Value E key c))"
  "trace (snd (Watch E key ob c)) = trace c"
  by (simp_all add: Watch_state)



subsection \<open>Observers and the cache\<close>

lemma observer_call_cached_quiet: "\<not> is_observer_call e \<Longrightarrow> observer_call_cached cs e"
  by (cases e) simp_all

lemma observer_call_cached_mono:
  "(\<And>k v. map_of cs k = Some v \<Longrightarrow> map_of cs' k = Some v) \<Longrightarrow>
   observer_call_cached cs e \<Longrightarrow> observer_call_cached cs' e"
  by (cases e) simp_all

lemma observer_calls_cached_mono:
  "(\<And>k v. map_of cs k = Some v \<Longrightarrow> map_of cs' k = Some v) \<Longrightarrow>
   list_all (observer_call_cached cs) t \<Longrightarrow> list_all (observer_call_cached cs') t"
  unfolding list_all_iff using observer_call_cached_mono by blast

lemma load_sources_quiet:
  "list_all Q (trace c) \<Longrightarrow> (\<And>e. \<not> is_observer_call e \<Longrightarrow> Q e) \<Longrightarrow>
   list_all Q (trace (snd (load_sources E srcs c)))"
proof (induction srcs arbitrary: c)
  case Nil
  then show ?case by simp
next
  case (Cons s srcs)
  note q = Cons.prems(2)
  obtain r1 m where m: "r_Merge E (loaded s) (reader c) = (r1, m)"
    by (cases "r_Merge E (loaded s) (reader c)")
  show ?case
  proof (cases "s_Load s")
    case (Inl err)
    from load_sources_load_failed [OF this, of E srcs c] Cons.prems show ?thesis
      by (simp del: load_sources.simps)
  next
    case (Inr kvs)
    then have k: "loaded s = kvs" by (simp add: loaded_def)
    have d: "list_all Q (map (\<lambda>v. Debugf ''config loaded: %s format: %s'' (kv_Key v) (kv_Format v)) kvs)"
      by (simp add: list_all_iff q)
    show ?thesis
    proof (cases m)
      case (Some err)
      with m k have "r_Merge E kvs (reader c) = (r1, Some err)" by simp
      from load_sources_merge_failed [OF Inr this, of srcs] Cons.prems d show ?thesis
        by (simp del: load_sources.simps)
    next
      case None
      with m k have mk: "r_Merge E kvs (reader c) = (r1, None)" by simp
      show ?thesis
      proof (cases "s_Watch s")
        case (Inl err)
        from load_sources_watch_failed [OF Inr mk Inl, of srcs] Cons.prems d show ?thesis
          by (simp del: load_sources.simps)
      next
        case w: (Inr w)
        have "list_all Q (trace (emits (source_events s) (c\<lparr>reader := r1, watchers := watchers c @ [w]\<rparr>)))"
          using Cons.prems d k by (simp add: source_events_def)
        from Cons.IH [OF this q] load_sources_next [OF Inr mk w, of srcs] show ?thesis
          by (simp del: load_sources.simps)
      qed
    qed
  qed
qed

lemma Load_quiet:
  assumes "list_all Q (trace c)" "\<And>e. \<not> is_observer_call e \<Longrightarrow> Q e"
  shows "list_all Q (trace (snd (Load E c)))"
proof -
  obtain res c1 where l: "load_sources E (sources c) c = (res, c1)"
    by (cases "load_sources E (sources c) c")
  with load_sources_quiet [OF assms, of E "sources c"] have t: "list_all Q (trace c1)" by simp
  obtain r2 res2 where r: "r_Resolve E (reader c1) = (r2, res2)"
    by (cases "r_Resolve E (reader c1)")
  show ?thesis
  proof (cases res)
    case None
    with l Load_after_sources [OF _ r] have "Load E c =
     (res2, emits (CallResolve #
             (case res2 of None \<Rightarrow> [] | Some err \<Rightarrow> [Errorf ''failed to resolve config source: %v'' err]))
        (c1\<lparr>reader := r2\<rparr>))" by simp
    with t assms(2) show ?thesis by (cases res2) simp_all
  next
    case (Some err)
    with l Load_aborted have "Load E c = (Some err, c1)" by blast
    with t show ?thesis by simp
  qed
qed

lemma Close_quiet:
  "list_all Q (trace c) \<Longrightarrow> (\<And>e. \<not> is_observer_call e \<Longrightarrow> Q e) \<Longrightarrow>
   list_all Q (trace (snd (Close c)))"
  by (simp add: Close_def stop_all_quiet)

lemma entry_events_cached:
  "map_of cs (fst e) = Some (snd e) \<Longrightarrow> list_all (observer_call_cached cs) (entry_events E c e)"
  by (simp add: entry_events_def split: option.splits)

lemma watch_iter_observer_calls:
  assumes "cache_wf c" "list_all (observer_call_cached (cached c)) (trace c)"
  shows "list_all (observer_call_cached (cached c)) (trace (snd (watch_iter E w nx c)))"
proof (rule watch_iter_cases [where nx = nx and E = E and c = c])
  fix kvs r1 r2
  assume nx: "nx = Inr kvs" and m: "r_Merge E kvs (reader c) = (r1, None)"
    and r: "r_Resolve E r1 = (r2, None)"
  let ?c0 = "emits [CallNext w, CallMerge kvs, CallResolve] (c\<lparr>reader := r2\<rparr>)"
  from assms(1) have wf: "list_all (\<lambda>e. snd e < length (heap ?c0)) (cached ?c0)"
      "distinct (map snd (cached ?c0))" and d: "distinct (map fst (cached c))"
    by (simp_all add: cache_wf_def)
  have "list_all (observer_call_cached (cached c)) (entry_events E ?c0 e)"
    if "e \<in> set (cached c)" for e
  proof (rule entry_events_cached)
    from that have "(fst e, snd e) \<in> set (cached c)" by simp
    with d show "map_of (cached c) (fst e) = Some (snd e)"
      by (rule map_of_is_SomeI)
  qed
  then have "list_all (observer_call_cached (cached c))
      (concat (map (entry_events E ?c0) (cached c)))"
    by (simp add: list_all_iff)
  moreover have "trace (cached_Range E (cached c) ?c0) =
      trace ?c0 @ concat (map (entry_events E ?c0) (cached c))"
    using cached_Range_trace [OF wf, of E] by simp
  ultimately show ?thesis
    unfolding nx watch_iter_scan [OF m r] using assms(2) by simp
qed (use assms(2) in \<open>simp_all add: watch_iter_cancel watch_iter_error watch_iter_merge_failed
        watch_iter_resolve_failed\<close>)

lemma watch_iter_heap_grows:
  assumes "cache_wf c"
  shows "length (heap c) \<le> length (heap (snd (watch_iter E w nx c)))"
proof (rule watch_iter_cases [where nx = nx and E = E and c = c])
  fix kvs r1 r2
  assume nx: "nx = Inr kvs" and m: "r_Merge E kvs (reader c) = (r1, None)"
    and r: "r_Resolve E r1 = (r2, None)"
  let ?c0 = "emits [CallNext w, CallMerge kvs, CallResolve] (c\<lparr>reader := r2\<rparr>)"
  from assms(1) have "list_all (\<lambda>e. snd e < length (heap ?c0)) (cached ?c0)"
    by (simp add: cache_wf_def)
  from cached_Range_length [OF this, of E] show ?thesis
    unfolding nx watch_iter_scan [OF m r] by simp
qed (simp_all add: watch_iter_cancel watch_iter_error watch_iter_merge_failed
        watch_iter_resolve_failed)

lemma config_inv_frame:
  assumes "config_inv c" "cached c' = cached c" "observers c' = observers c"
    "length (heap c) \<le> length (heap c')"
    "list_all (observer_call_cached (cached c)) (trace c')"
  shows "config_inv c'"
proof -
  from assms(1) have "cache_wf c" "observers_cached c" by (simp_all add: config_inv_def)
  from cache_wf_cong [OF assms(2,4) this(1)] have "cache_wf c'" .
  moreover from \<open>observers_cached c\<close> assms(2,3) have "observers_cached c'"
    by (simp add: observers_cached_def)
  ultimately show ?thesis using assms(2,5) by (simp add: config_inv_def)
qed

lemma config_inv_Value:
  assumes "config_inv c"
  shows "config_inv (snd (Value E key c))"
proof -
  let ?c1 = "snd (Value E key c)"
  have keep: "map_of (cached ?c1) k = Some v" if "map_of (cached c) k = Some v" for k v
    using that by (rule Value_keeps_entries)
  from assms have "cache_wf ?c1"
    by (simp add: config_inv_def Value_cache_wf)
  moreover have "observers_cached ?c1"
    unfolding observers_cached_def
  proof (intro allI impI)
    fix k
    assume "observers ?c1 k \<noteq> None"
    then have "observers c k \<noteq> None" by simp
    with assms obtain v where "map_of (cached c) k = Some v"
      by (auto simp: config_inv_def observers_cached_def)
    from keep [OF this] show "map_of (cached ?c1) k \<noteq> None" by simp
  qed
  moreover from assms have "list_all (observer_call_cached (cached c)) (trace c)"
    by (simp add: config_inv_def)
  then have "list_all (observer_call_cached (cached ?c1)) (trace c)"
    by (rule observer_calls_cached_mono [rotated]) (rule keep)
  ultimately show ?thesis by (simp add: config_inv_def)
qed

lemma config_inv_Watch:
  assumes "config_inv c"
  shows "config_inv (snd (Watch E key ob c))"
proof (cases "Load_at (fst (Value E key c)) (snd (Value E key c)) = PNil")
  case True
  with config_inv_Value [OF assms, of E key] show ?thesis by (simp add: Watch_state)
next
  case False
  let ?c1 = "snd (Value E key c)"
  let ?c2 = "?c1\<lparr>observers := (observers c)(key \<mapsto> ob)\<rparr>"
  from False have w: "snd (Watch E key ob c) = ?c2" by (simp add: Watch_state)
  from Value_loaded_is_cached [OF False]
  have k: "map_of (cached ?c1) key \<noteq> None" by simp
  from config_inv_Value [OF assms, of E key]
  have wf: "cache_wf ?c1" and oc: "observers_cached ?c1"
    and tr: "list_all (observer_call_cached (cached ?c1)) (trace ?c1)"
    by (simp_all add: config_inv_def)
  from wf have "cache_wf ?c2" by (simp add: cache_wf_def)
  moreover have "observers_cached ?c2"
    unfolding observers_cached_def
  proof (intro allI impI)
    fix k'
    assume "observers ?c2 k' \<noteq> None"
    then have "k' = key \<or> observers ?c1 k' \<noteq> None" by (simp split: if_splits)
    with k oc show "map_of (cached ?c2) k' \<noteq> None"
      by (auto simp: observers_cached_def)
  qed
  moreover from tr have "list_all (observer_call_cached (cached ?c2)) (trace ?c2)" by simp
  ultimately show ?thesis unfolding w by (simp add: config_inv_def)
qed

lemma config_inv_step:
  assumes "config_inv c"
  shows "config_inv (step E a c)"
proof (cases a)
  case DoLoad
  from assms have "list_all (observer_call_cached (cached c)) (trace (snd (Load E c)))"
    by (intro Load_quiet observer_call_cached_quiet) (simp_all add: config_inv_def)
  with assms DoLoad show ?thesis by - (rule config_inv_frame [of c], simp_all)
next
  case (DoValue key)
  with assms show ?thesis by (simp add: config_inv_Value)
next
  case (DoWatch key ob)
  with assms show ?thesis by (simp add: config_inv_Watch)
next
  case (DoScan vs)
  from assms have "list_all (observer_call_cached (cached c)) (trace (snd (snd (Scan E vs c))))"
    by (intro Scan_quiet observer_call_cached_quiet) (simp_all add: config_inv_def)
  with assms DoScan show ?thesis by - (rule config_inv_frame [of c], simp_all)
next
  case DoClose
  from assms have "list_all (observer_call_cached (cached c)) (trace (snd (Close c)))"
    by (intro Close_quiet observer_call_cached_quiet) (simp_all add: config_inv_def)
  with assms DoClose show ?thesis by - (rule config_inv_frame [of c], simp_all)
next
  case (DoWatchIter w nx)
  from assms have "cache_wf c" "list_all (observer_call_cached (cached c)) (trace c)"
    by (simp_all add: config_inv_def)
  from watch_iter_observer_calls [OF this, of E w nx] watch_iter_heap_grows [OF this(1), of E w nx]
    assms DoWatchIter
  show ?thesis by - (rule config_inv_frame [of c], simp_all)
qed

lemma config_inv_New: "config_inv (New srcs rz)"
  by (simp add: config_inv_def cache_wf_def observers_cached_def New_def)

lemma config_inv_run: "config_inv c \<Longrightarrow> config_inv (run E acts c)"
  by (induction acts arbitrary: c) (simp_all add: config_inv_step)

text \<open>
  In particular the cache of every reachable state is well formed: its keys are distinct,
  no two keys share an object, and every cached reference is allocated.
\<close>

lemma reachable_cache_wf: "cache_wf (run E acts (New srcs rz))"
  using config_inv_run [OF config_inv_New, of E acts srcs rz] by (simp add: config_inv_def)

lemma observer_call_cached_mem:
  "list_all (observer_call_cached cs) t \<Longrightarrow> CallObserver ob k v \<in> set t \<Longrightarrow> map_of cs k = Some v"
  by (auto simp: list_all_iff)

text \<open>
  Claim C9. A successful \<^verbatim>\<open>Watch(key, o)\<close> leaves \<open>key\<close> in the cache, bound to the
  object its internal \<^verbatim>\<open>Value(key)\<close> call returned. In every state the orchestrator
  reaches from \<^verbatim>\<open>New\<close> by its operations, every key with a registered observer is in
  the cache, and every observer invocation that has happened was for a key of the cache
  and was handed the object cached under that key.
\<close>

theorem observers_only_for_cached_keys:
  "(fst (Watch E key ob c) = None \<longrightarrow>
      map_of (cached (snd (Watch E key ob c))) key = Some (fst (Value E key c)))
   \<and> (\<forall>k. observers (run E acts (New srcs rz)) k \<noteq> None \<longrightarrow>
        map_of (cached (run E acts (New srcs rz))) k \<noteq> None)
   \<and> (\<forall>ob k v. CallObserver ob k v \<in> set (trace (run E acts (New srcs rz))) \<longrightarrow>
        map_of (cached (run E acts (New srcs rz))) k = Some v)"
proof (intro conjI impI allI)
  assume "fst (Watch E key ob c) = None"
  then have "Load_at (fst (Value E key c)) (snd (Value E key c)) \<noteq> PNil"
    by (cases "Value E key c") (auto simp: Watch_def split: if_splits)
  from Value_loaded_is_cached [OF this]
  show "map_of (cached (snd (Watch E key ob c))) key = Some (fst (Value E key c))"
    by simp
next
  have inv: "config_inv (run E acts (New srcs rz))"
    by (rule config_inv_run) (rule config_inv_New)
  {
    fix k
    assume "observers (run E acts (New srcs rz)) k \<noteq> None"
    with inv show "map_of (cached (run E acts (New srcs rz))) k \<noteq> None"
      by (simp add: config_inv_def observers_cached_def)
  next
    fix ob k v
    assume "CallObserver ob k v \<in> set (trace (run E acts (New srcs rz)))"
    with inv show "map_of (cached (run E acts (New srcs rz))) k = Some v"
      by (auto simp: config_inv_def dest: observer_call_cached_mem)
  }
qed

subsection \<open>Identity of cached objects\<close>





subsection \<open>Concrete runs\<close>

lemmas src_simps =
  src_A_def src_B_def src_unreadable_def src_yaml_def src_unwatchable_def
  loaded_def loads_def watching_def watcher_of_def source_events_def

theorem Load_sources_in_order_witness:
  "fst (Load demo_env (New [src_A, src_B] [])) = None
   \<and> reader (snd (Load demo_env (New [src_A, src_B] []))) = [(''level'', PString ''debug'')]
   \<and> map w_id (watchers (snd (Load demo_env (New [src_A, src_B] [])))) = [1, 2]
   \<and> trace (snd (Load demo_env (New [src_A, src_B] []))) =
       [CallSourceLoad 1, Debugf ''config loaded: %s format: %s'' ''level'' ''json'',
        CallMerge [json ''level'' ''info''], CallSourceWatch 1, Go_watch 1,
        CallSourceLoad 2, Debugf ''config loaded: %s format: %s'' ''level'' ''json'',
        CallMerge [json ''level'' ''debug''], CallSourceWatch 2, Go_watch 2,
        CallResolve]
   \<and> fst (Load demo_env (New [src_A, src_unreadable, src_B] [])) = Some (ErrOther ''no such file'')
   \<and> reader (snd (Load demo_env (New [src_A, src_unreadable, src_B] []))) = [(''level'', PString ''info'')]
   \<and> map w_id (watchers (snd (Load demo_env (New [src_A, src_unreadable, src_B] [])))) = [1]
   \<and> trace (snd (Load demo_env (New [src_A, src_unreadable, src_B] []))) =
       [CallSourceLoad 1, Debugf ''config loaded: %s format: %s'' ''level'' ''json'',
        CallMerge [json ''level'' ''info''], CallSourceWatch 1, Go_watch 1,
        CallSourceLoad 3]
   \<and> fst (Load demo_env (New [src_A, src_yaml, src_B] [])) = Some (ErrOther ''unknown format'')
   \<and> reader (snd (Load demo_env (New [src_A, src_yaml, src_B] []))) = [(''level'', PString ''info'')]
   \<and> trace (snd (Load demo_env (New [src_A, src_yaml, src_B] []))) =
       [CallSourceLoad 1, Debugf ''config loaded: %s format: %s'' ''level'' ''json'',
        CallMerge [json ''level'' ''info''], CallSourceWatch 1, Go_watch 1,
        CallSourceLoad 4, Debugf ''config loaded: %s format: %s'' ''level'' ''yaml'',
        CallMerge [\<lparr>kv_Key = ''level'', kv_Value = ''warn'', kv_Format = ''yaml''\<rparr>],
        Errorf ''failed to merge config source: %v'' (ErrOther ''unknown format'')]
   \<and> fst (Load demo_env (New [src_A, src_unwatchable, src_B] [])) = Some (ErrOther ''watch unsupported'')
   \<and> reader (snd (Load demo_env (New [src_A, src_unwatchable, src_B] []))) =
       [(''level'', PString ''info''), (''port'', PInt 8080)]
   \<and> map w_id (watchers (snd (Load demo_env (New [src_A, src_unwatchable, src_B] [])))) = [1]"
  using
    Load_sources_in_order [where E = demo_env and c = "New [src_A, src_B] []"
      and rr = "[(''level'', PString ''debug'')]" and res = None
      and pre = "[]" and s = src_A and post = "[src_B]" and err = ErrNotFound and kvs = "[]"
      and rm = "[]"]
    Load_sources_in_order [where E = demo_env and c = "New [src_A, src_unreadable, src_B] []"
      and rr = "[]" and res = None
      and pre = "[src_A]" and s = src_unreadable and post = "[src_B]"
      and err = "ErrOther ''no such file''" and kvs = "[]" and rm = "[]"]
    Load_sources_in_order [where E = demo_env and c = "New [src_A, src_yaml, src_B] []"
      and rr = "[]" and res = None
      and pre = "[src_A]" and s = src_yaml and post = "[src_B]"
      and err = "ErrOther ''unknown format''"
      and kvs = "[\<lparr>kv_Key = ''level'', kv_Value = ''warn'', kv_Format = ''yaml''\<rparr>]"
      and rm = "[(''level'', PString ''info'')]"]
    Load_sources_in_order [where E = demo_env and c = "New [src_A, src_unwatchable, src_B] []"
      and rr = "[]" and res = None
      and pre = "[src_A]" and s = src_unwatchable and post = "[src_B]"
      and err = "ErrOther ''watch unsupported''"
      and kvs = "[json ''port'' ''8080'']"
      and rm = "[(''level'', PString ''info''), (''port'', PInt 8080)]"]
  by (simp add: demo_simps src_simps)

theorem watch_iteration_error_policy_witness:
  "watch_iter demo_env 1 (Inl (Wrapped ''rpc'' ContextCanceled)) (New [] []) =
     (Return, (New [] [])\<lparr>trace :=
        [CallNext 1, Infof ''watcher's ctx cancel : %v'' (Wrapped ''rpc'' ContextCanceled)]\<rparr>)
   \<and> watch demo_env 1 [Inl (Wrapped ''rpc'' ContextCanceled), Inr [json ''a'' ''1'']] (New [] []) =
     (Returned, (New [] [])\<lparr>trace :=
        [CallNext 1, Infof ''watcher's ctx cancel : %v'' (Wrapped ''rpc'' ContextCanceled)]\<rparr>)
   \<and> watch_iter demo_env 1 (Inl (ErrOther ''timeout'')) (New [] []) =
     (Continue, (New [] [])\<lparr>trace :=
        [CallNext 1, Sleep 1000000000,
         Errorf ''failed to watch next config: %v'' (ErrOther ''timeout'')]\<rparr>)
   \<and> watch_iter demo_env 1
        (Inr [\<lparr>kv_Key = ''level'', kv_Value = ''warn'', kv_Format = ''yaml''\<rparr>]) (New [] []) =
     (Continue, (New [] [])\<lparr>trace :=
        [CallNext 1, CallMerge [\<lparr>kv_Key = ''level'', kv_Value = ''warn'', kv_Format = ''yaml''\<rparr>],
         Errorf ''failed to merge next config: %v'' (ErrOther ''unknown format'')]\<rparr>)
   \<and> watch_iter demo_env 1 (Inr [json ''level'' ''${}'']) (New [] []) =
     (Continue, (New [] [(''level'', PString ''${}'')])\<lparr>trace :=
        [CallNext 1, CallMerge [json ''level'' ''${}''], CallResolve,
         Errorf ''failed to resolve next config: %v'' (ErrOther ''unresolved placeholder'')]\<rparr>)
   \<and> fst (watch demo_env 1
        [Inl (ErrOther ''timeout''), Inr [json ''level'' ''info''], Inl ContextCanceled, Inr []]
        (New [] [])) = Returned
   \<and> fst (watch demo_env 1 [Inl (ErrOther ''timeout''), Inr []] (New [] [])) = Blocked"
  using
    watch_iteration_error_policy [where E = demo_env and w = 1 and c = "New [] []"
      and err = "Wrapped ''rpc'' ContextCanceled" and rest = "[Inr [json ''a'' ''1'']]"
      and kvs = "[]" and rm = "[]" and rr = "[]"
      and nxs = "[Inl (ErrOther ''timeout''), Inr [json ''level'' ''info''], Inl ContextCanceled, Inr []]"]
    watch_iteration_error_policy [where E = demo_env and w = 1 and c = "New [] []"
      and err = "ErrOther ''timeout''" and rest = "[]"
      and kvs = "[]" and rm = "[]" and rr = "[]"
      and nxs = "[Inl (ErrOther ''timeout''), Inr []]"]
    watch_iteration_error_policy [where E = demo_env and w = 1 and c = "New [] []"
      and err = "ErrOther ''unknown format''" and rest = "[]"
      and kvs = "[\<lparr>kv_Key = ''level'', kv_Value = ''warn'', kv_Format = ''yaml''\<rparr>]"
      and rm = "[]" and rr = "[]" and nxs = "[]"]
    watch_iteration_error_policy [where E = demo_env and w = 1 and c = "New [] []"
      and err = "ErrOther ''unresolved placeholder''" and rest = "[]"
      and kvs = "[json ''level'' ''${}'']"
      and rm = "[(''level'', PString ''${}'')]" and rr = "[(''level'', PString ''${}'')]"
      and nxs = "[]"]
  by (simp add: demo_simps is_cancel_def del: watch.simps)

theorem Scan_one_snapshot_for_all_targets_witness:
  "Scan demo_env [(10, ''''), (20, ''old'')] (New [] []) =
     (Some (ErrOther ''nothing loaded''), [(10, ''''), (20, ''old'')],
      (New [] [])\<lparr>trace := [CallReaderSource]\<rparr>)
   \<and> Scan demo_env [(10, ''''), (20, ''old'')] (New [] [(''level'', PString ''info'')]) =
     (None, [(10, ''level;''), (20, ''level;'')],
      (New [] [(''level'', PString ''info'')])\<lparr>trace :=
         [CallReaderSource, CallUnmarshal ''level;'' 0, CallUnmarshal ''level;'' 1]\<rparr>)"
  using
    Scan_one_snapshot_for_all_targets [where E = demo_env and c = "New [] []"
      and err = "ErrOther ''nothing loaded''" and vs = "[(10, ''''), (20, ''old'')]"
      and data = "[]"]
    Scan_one_snapshot_for_all_targets [where E = demo_env
      and c = "New [] [(''level'', PString ''info'')]"
      and err = "ErrOther ''nothing loaded''" and vs = "[(10, ''''), (20, ''old'')]"
      and data = "''level;''"]
  by (simp add: demo_simps del: unmarshal_all.simps)

theorem Scan_stops_at_first_decode_failure_witness:
  "Scan demo_env [(10, ''''), (3, ''old''), (10, ''keep'')] (New [] [(''level'', PString ''info'')]) =
     (Some (ErrOther ''target too small''), [(10, ''level;''), (3, ''lev''), (10, ''keep'')],
      (New [] [(''level'', PString ''info'')])\<lparr>trace :=
         [CallReaderSource, CallUnmarshal ''level;'' 0, CallUnmarshal ''level;'' 1]\<rparr>)"
  using
    Scan_stops_at_first_decode_failure [where E = demo_env
      and c = "New [] [(''level'', PString ''info'')]" and data = "''level;''"
      and pre = "[(10, '''')]" and v = "(3, ''old'')" and v' = "(3, ''lev'')"
      and post = "[(10, ''keep'')]" and err = "ErrOther ''target too small''"]
  by (simp add: demo_simps del: unmarshal_all.simps)

text \<open>
  Claim C10 as stated fails for the target at the failing position: the decoder may have
  written into it before it reports its error. Here the decode into the second target
  fails, \<^verbatim>\<open>Scan\<close> returns that error, and the second target has changed from \<open>old\<close>
  to \<open>lev\<close>.
\<close>

theorem Scan_failing_target_is_modified:
  "snd (unmarshalJSON demo_env ''level;'' (3, ''old'')) = Some (ErrOther ''target too small'')
   \<and> fst (Scan demo_env [(10, ''''), (3, ''old''), (10, ''keep'')]
          (New [] [(''level'', PString ''info'')])) = Some (ErrOther ''target too small'')
   \<and> fst (snd (Scan demo_env [(10, ''''), (3, ''old''), (10, ''keep'')]
          (New [] [(''level'', PString ''info'')]))) ! 1 = (3, ''lev'')
   \<and> [(10, ''''), (3, ''old''), (10, ''keep'')] ! 1 = (3 :: nat, ''old'')
   \<and> drop 1 (fst (snd (Scan demo_env [(10, ''''), (3, ''old''), (10, ''keep'')]
          (New [] [(''level'', PString ''info'')]))))
       \<noteq> drop 1 [(10, ''''), (3, ''old''), (10, ''keep'')]"
  by (simp add: Scan_def demo_simps Let_def)

theorem watch_notifies_iff_comparable_change_witness:
  "filter (is_store_to 0) (drop (length (trace ex_config))
      (trace (snd (watch_iter demo_env 1 (Inr [json ''level'' ''debug'', json ''port'' ''x'']) ex_config))))
     = [CallStore 0 (PString ''debug'')]
   \<and> filter (is_observer_call_for ''level'') (drop (length (trace ex_config))
      (trace (snd (watch_iter demo_env 1 (Inr [json ''level'' ''debug'', json ''port'' ''x'']) ex_config))))
     = [CallObserver 7 ''level'' 0]
   \<and> heap (snd (watch_iter demo_env 1 (Inr [json ''level'' ''debug'', json ''port'' ''x'']) ex_config)) ! 0
     = Live (PString ''debug'')
   \<and> filter (is_store_to 1) (drop (length (trace ex_config))
      (trace (snd (watch_iter demo_env 1 (Inr [json ''level'' ''debug'', json ''port'' ''x'']) ex_config))))
     = []
   \<and> filter (is_observer_call_for ''port'') (drop (length (trace ex_config))
      (trace (snd (watch_iter demo_env 1 (Inr [json ''level'' ''debug'', json ''port'' ''x'']) ex_config))))
     = []
   \<and> heap (snd (watch_iter demo_env 1 (Inr [json ''level'' ''debug'', json ''port'' ''x'']) ex_config)) ! 1
     = Live (PInt 1)"
proof -
  have wf: "cache_wf ex_config"
    by (simp add: cache_wf_def ex_config_def)
  have m: "r_Merge demo_env [json ''level'' ''debug'', json ''port'' ''x''] (reader ex_config) =
      ([(''level'', PString ''debug''), (''port'', PString ''x'')], None)"
    by (simp add: demo_simps ex_config_def)
  have r: "r_Resolve demo_env [(''level'', PString ''debug''), (''port'', PString ''x'')] =
      ([(''level'', PString ''debug''), (''port'', PString ''x'')], None)"
    by (simp add: demo_simps)
  have l: "(''level'', 0) \<in> set (cached ex_config)" and p: "(''port'', 1) \<in> set (cached ex_config)"
    by (simp_all add: ex_config_def)
  have c: "comparable_change (Some (PString ''debug'')) (Load_at 0 ex_config)"
    "\<not> comparable_change (Some (PString ''x'')) (Load_at 1 ex_config)"
    "observers ex_config ''level'' = Some 7" "heap ex_config ! 1 = Live (PInt 1)"
    by (simp_all add: comparable_change_def reflect_DeepEqual_def Load_at_def ex_config_def)
  from watch_notifies_iff_comparable_change [OF wf l m r, of 1]
    watch_notifies_iff_comparable_change [OF wf p m r, of 1] c
  show ?thesis by (simp add: demo_env_sel)
qed

lemmas exec_simps =
  Value_def Watch_def reader_Value_def alloc_def watch_iter_def range_body_def Store_at_def
  reflect_DeepEqual_def Let_def


theorem observers_only_for_cached_keys_witness:
  "fst (Watch demo_env ''level'' 7 (New [] [(''level'', PString ''info'')])) = None
   \<and> map_of (cached (snd (Watch demo_env ''level'' 7 (New [] [(''level'', PString ''info'')])))) ''level''
       = Some 0
   \<and> observers (run demo_env
          [DoWatch ''level'' 7, DoWatchIter 1 (Inr [json ''level'' ''debug''])]
          (New [] [(''level'', PString ''info'')])) ''level'' = Some 7
   \<and> map_of (cached (run demo_env
          [DoWatch ''level'' 7, DoWatchIter 1 (Inr [json ''level'' ''debug''])]
          (New [] [(''level'', PString ''info'')]))) ''level'' \<noteq> None
   \<and> CallObserver 7 ''level'' 0 \<in> set (trace (run demo_env
          [DoWatch ''level'' 7, DoWatchIter 1 (Inr [json ''level'' ''debug''])]
          (New [] [(''level'', PString ''info'')])))
   \<and> map_of (cached (run demo_env
          [DoWatch ''level'' 7, DoWatchIter 1 (Inr [json ''level'' ''debug''])]
          (New [] [(''level'', PString ''info'')]))) ''level'' = Some 0"
proof -
  let ?cz = "New [] [(''level'', PString ''info'')] :: (string \<times> payload) list config"
  let ?acts = "[DoWatch ''level'' 7, DoWatchIter 1 (Inr [json ''level'' ''debug''])]
      :: (nat \<times> bytes) action list"
  note t = observers_only_for_cached_keys [where E = demo_env and key = "''level''" and ob = 7
      and c = ?cz and acts = ?acts and srcs = "[]" and rz = "[(''level'', PString ''info'')]"]
  have w: "fst (Watch demo_env ''level'' 7 ?cz) = None"
    and v: "fst (Value demo_env ''level'' ?cz) = 0"
    by (simp_all add: demo_simps exec_simps)
  have o: "observers (run demo_env ?acts ?cz) ''level'' = Some 7"
    by (simp add: demo_simps exec_simps)
  have e: "CallObserver 7 ''level'' 0 \<in> set (trace (run demo_env ?acts ?cz))"
    by (simp add: demo_simps exec_simps)
  from t w v have 1: "map_of (cached (snd (Watch demo_env ''level'' 7 ?cz))) ''level'' = Some 0"
    by simp
  from t o have 2: "map_of (cached (run demo_env ?acts ?cz)) ''level'' \<noteq> None"
    by (simp add: New_def)
  from t e have 3: "map_of (cached (run demo_env ?acts ?cz)) ''level'' = Some 0"
    by (simp add: New_def)
  from w 1 o 2 e 3 show ?thesis by simp
qed

theorem Watch_registers_iff_loaded_witness:
  "fst (Watch demo_env ''missing'' 7 ex_config) = Some ErrNotFound
   \<and> observers (snd (Watch demo_env ''missing'' 7 ex_config)) ''missing'' = None
   \<and> observers (snd (Watch demo_env ''missing'' 7 ex_config)) ''level'' = Some 7
   \<and> fst (Watch demo_env ''level'' 9 ex_config) = None
   \<and> observers (snd (Watch demo_env ''level'' 9 ex_config)) ''level'' = Some 9
   \<and> observers (snd (Watch demo_env ''level'' 9 ex_config)) ''port'' = Some 8"
proof -
  have "Load_at (fst (Value demo_env ''missing'' ex_config)) (snd (Value demo_env ''missing'' ex_config)) = PNil"
    "Load_at (fst (Value demo_env ''level'' ex_config)) (snd (Value demo_env ''level'' ex_config)) \<noteq> PNil"
    "observers ex_config ''missing'' = None" "observers ex_config ''level'' = Some 7"
    "observers ex_config ''port'' = Some 8"
    by (simp_all add: demo_simps exec_simps ex_config_def)
  with Watch_registers_iff_loaded [of demo_env "''missing''" 7 ex_config]
    Watch_registers_iff_loaded [of demo_env "''level''" 9 ex_config]
  show ?thesis by simp
qed

end
